theory Spec2Isabelle
  imports Complex_Main "HOL-Library.Word"
begin

section \<open>JavaScript strings\<close>

text \<open>
  A JavaScript string is a sequence of 16-bit code units, and \<^verbatim>\<open>length\<close>,
  \<^verbatim>\<open>slice\<close>, \<^verbatim>\<open>trim\<close> and the regular expressions of the speech
  service (the module of \<^verbatim>\<open>services/openrouter.ts\<close> that imports
  \<^verbatim>\<open>expo-speech\<close>) all work on code units.
\<close>

type_synonym jschar = "16 word"
type_synonym jsstring = "jschar list"

text \<open>
  The class \<^verbatim>\<open>\s\<close> of a regular expression, which is also what
  \<^verbatim>\<open>trim()\<close> strips: WhiteSpace and LineTerminator of ECMAScript.
\<close>

definition is_space :: "jschar \<Rightarrow> bool" where
  "is_space c \<longleftrightarrow>
     c = 0x09 \<or> c = 0x0A \<or> c = 0x0B \<or> c = 0x0C \<or> c = 0x0D \<or> c = 0x20 \<or> c = 0xA0 \<or>
     c = 0x1680 \<or> (0x2000 \<le> c \<and> c \<le> 0x200A) \<or> c = 0x2028 \<or> c = 0x2029 \<or>
     c = 0x202F \<or> c = 0x205F \<or> c = 0x3000 \<or> c = 0xFEFF"

definition SP :: jschar where
  "SP = 0x20"

text \<open>String literals of the development: the code units of an ASCII text.\<close>

definition js :: "string \<Rightarrow> jsstring" where
  "js s = map of_char s"

text \<open>\<^verbatim>\<open>s.trim()\<close>\<close>

definition trim :: "jsstring \<Rightarrow> jsstring" where
  "trim s = rev (dropWhile is_space (rev (dropWhile is_space s)))"

text \<open>\<^verbatim>\<open>s.replace(/\s+/g, ' ')\<close>: every maximal run of whitespace becomes one space.\<close>

function collapse :: "jsstring \<Rightarrow> jsstring" where
  "collapse [] = []"
| "collapse (c # cs) =
     (if is_space c then SP # collapse (dropWhile is_space cs) else c # collapse cs)"
  by pat_completeness auto
termination
  by (relation "measure length") (auto simp: less_Suc_eq_le length_dropWhile_le)

text \<open>
  \<^verbatim>\<open>s.split(re)\<close> for a regular expression \<^verbatim>\<open>re\<close> of the shape
  \<^verbatim>\<open>(?<=X)\s+\<close> or \<^verbatim>\<open>\s+\<close>: the separator is a maximal run of whitespace
  whose first code unit stands where the lookbehind holds. The lookbehind is a predicate
  on the code unit before the position (\<open>None\<close> at the start of the string). \<open>acc\<close> is
  the piece read so far. A separator at the very end leaves a last, empty piece, as in
  JavaScript.
\<close>

function jsSplit :: "(jschar option \<Rightarrow> bool) \<Rightarrow> jschar option \<Rightarrow> jsstring \<Rightarrow> jsstring \<Rightarrow> jsstring list" where
  "jsSplit lb prev acc [] = [acc]"
| "jsSplit lb prev acc (c # cs) =
     (if is_space c \<and> lb prev
      then acc # jsSplit lb (Some (last (c # takeWhile is_space cs))) [] (dropWhile is_space cs)
      else jsSplit lb (Some c) (acc @ [c]) cs)"
  by pat_completeness auto
termination
  by (relation "measure (\<lambda>(lb, prev, acc, s). length s)")
     (auto simp: less_Suc_eq_le length_dropWhile_le)

text \<open>The lookbehind \<^verbatim>\<open>(?<=[.!?])\<close>.\<close>

definition afterTerminator :: "jschar option \<Rightarrow> bool" where
  "afterTerminator p \<longleftrightarrow> p = Some 0x2E \<or> p = Some 0x21 \<or> p = Some 0x3F"

definition anywhere :: "jschar option \<Rightarrow> bool" where
  "anywhere p \<longleftrightarrow> True"

text \<open>\<^verbatim>\<open>normalized.split(/(?<=[.!?])\s+/)\<close>\<close>

definition splitSentences :: "jsstring \<Rightarrow> jsstring list" where
  "splitSentences s = jsSplit afterTerminator None [] s"

text \<open>\<^verbatim>\<open>s.split(/\s+/).filter(Boolean)\<close>\<close>

definition splitWords :: "jsstring \<Rightarrow> jsstring list" where
  "splitWords s = filter (\<lambda>w. w \<noteq> []) (jsSplit anywhere None [] s)"

text \<open>\<^verbatim>\<open>xs.join(' ')\<close>\<close>

fun joinSp :: "jsstring list \<Rightarrow> jsstring" where
  "joinSp [] = []"
| "joinSp [x] = x"
| "joinSp (x # y # ys) = x @ [SP] @ joinSp (y # ys)"

section \<open>The chunker\<close>

definition MAX_CHUNK_LEN :: nat where
  "MAX_CHUNK_LEN = 600"

text \<open>
  The inner loop of \<^verbatim>\<open>buildChunks\<close>:
  \<^verbatim>\<open>for (let i = 0; i < s.length; i += MAX_CHUNK_LEN) out.push(s.slice(i, i + MAX_CHUNK_LEN))\<close>
\<close>

function hardSplit :: "jsstring \<Rightarrow> nat \<Rightarrow> jsstring list \<Rightarrow> jsstring list" where
  "hardSplit s i out =
     (if i < length s
      then hardSplit s (i + MAX_CHUNK_LEN) (out @ [take MAX_CHUNK_LEN (drop i s)])
      else out)"
  by pat_completeness auto
termination
  by (relation "measure (\<lambda>(s, i, out). length s - i)") (auto simp: MAX_CHUNK_LEN_def)

text \<open>One round of the loop over the sentences, on the pair of \<^verbatim>\<open>out\<close> and \<^verbatim>\<open>buf\<close>.\<close>

definition chunkStep :: "jsstring list \<times> jsstring \<Rightarrow> jsstring \<Rightarrow> jsstring list \<times> jsstring" where
  "chunkStep ob s =
     (case ob of (out, buf) \<Rightarrow>
        if length (trim (buf @ [SP] @ s)) > MAX_CHUNK_LEN then
          (let out1 = (if buf \<noteq> [] then out @ [trim buf] else out)
           in if length s > MAX_CHUNK_LEN then (hardSplit s 0 out1, []) else (out1, s))
        else (out, (if buf \<noteq> [] then buf @ [SP] else []) @ s))"

definition normalizeWs :: "jsstring \<Rightarrow> jsstring" where
  "normalizeWs text = trim (collapse text)"

definition finish :: "jsstring list \<times> jsstring \<Rightarrow> jsstring list" where
  "finish ob = (case ob of (out, buf) \<Rightarrow> if buf \<noteq> [] then out @ [trim buf] else out)"

definition buildChunks :: "jsstring \<Rightarrow> jsstring list" where
  "buildChunks text =
     (let normalized = normalizeWs text
      in if normalized = [] then []
         else finish (foldl chunkStep ([], []) (splitSentences normalized)))"


section \<open>JavaScript numbers\<close>

text \<open>
  A JavaScript number is an IEEE 754 double: a finite value, one of the two infinities or
  NaN. \<open>Fin x\<close> is the double whose value is \<open>x\<close>; the two zeros are one value here,
  since no operation of the speech service tells them apart.
\<close>

datatype jsnum = Fin real | PInf | NInf | NaN

text \<open>Rounding to an integer, a tie going to the even one.\<close>

definition halfEven :: "real \<Rightarrow> int" where
  "halfEven y =
     (let f = \<lfloor>y\<rfloor>; d = y - of_int f
      in if d < 1 / 2 then f else if 1 / 2 < d then f + 1 else if even f then f else f + 1)"

text \<open>
  The doubles between \<open>2\<^sup>e\<close> and \<open>2\<^sup>e\<^sup>+\<^sup>1\<close> are the multiples of \<open>2\<^sup>e\<^sup>-\<^sup>5\<^sup>2\<close>, and below
  \<open>2\<^sup>-\<^sup>1\<^sup>0\<^sup>2\<^sup>2\<close> the multiples of \<open>2\<^sup>-\<^sup>1\<^sup>0\<^sup>7\<^sup>4\<close>. \<open>nearest x\<close> is the multiple nearest to
  \<open>x\<close>, a tie going to the even one, and \<open>toDouble x\<close> the result of an arithmetic
  operation whose exact value is \<open>x\<close>: an infinity when the magnitude of \<open>nearest x\<close>
  reaches \<open>2\<^sup>1\<^sup>0\<^sup>2\<^sup>4\<close>.
\<close>

definition ulpExp :: "real \<Rightarrow> int" where
  "ulpExp x = max \<lfloor>log 2 \<bar>x\<bar>\<rfloor> (- 1022) - 52"

definition nearest :: "real \<Rightarrow> real" where
  "nearest x =
     (if x = 0 then 0
      else sgn x * (of_int (halfEven (\<bar>x\<bar> / 2 powi ulpExp x)) * 2 powi ulpExp x))"

definition toDouble :: "real \<Rightarrow> jsnum" where
  "toDouble x =
     (let y = nearest x
      in if 2 ^ 1024 \<le> y then PInf else if y \<le> - (2 ^ 1024) then NInf else Fin y)"

text \<open>\<^verbatim>\<open>a + b\<close> and \<^verbatim>\<open>a * b\<close>\<close>

fun jsAdd :: "jsnum \<Rightarrow> jsnum \<Rightarrow> jsnum" where
  "jsAdd NaN b = NaN"
| "jsAdd a NaN = NaN"
| "jsAdd (Fin a) (Fin b) = toDouble (a + b)"
| "jsAdd PInf NInf = NaN"
| "jsAdd NInf PInf = NaN"
| "jsAdd PInf b = PInf"
| "jsAdd a PInf = PInf"
| "jsAdd NInf b = NInf"
| "jsAdd a NInf = NInf"

fun jsMul :: "jsnum \<Rightarrow> jsnum \<Rightarrow> jsnum" where
  "jsMul NaN b = NaN"
| "jsMul a NaN = NaN"
| "jsMul (Fin a) (Fin b) = toDouble (a * b)"
| "jsMul (Fin a) PInf = (if a = 0 then NaN else if 0 < a then PInf else NInf)"
| "jsMul (Fin a) NInf = (if a = 0 then NaN else if 0 < a then NInf else PInf)"
| "jsMul PInf (Fin b) = (if b = 0 then NaN else if 0 < b then PInf else NInf)"
| "jsMul NInf (Fin b) = (if b = 0 then NaN else if 0 < b then NInf else PInf)"
| "jsMul PInf PInf = PInf"
| "jsMul PInf NInf = NInf"
| "jsMul NInf PInf = NInf"
| "jsMul NInf NInf = PInf"

text \<open>
  \<^verbatim>\<open>a / d\<close> for a finite \<open>d\<close> above zero: the service divides by \<^verbatim>\<open>1000\<close> and by
  \<^verbatim>\<open>chunks.length\<close> where that is positive.
\<close>

fun jsDivPos :: "jsnum \<Rightarrow> real \<Rightarrow> jsnum" where
  "jsDivPos (Fin a) d = toDouble (a / d)"
| "jsDivPos a d = a"

text \<open>\<^verbatim>\<open>Math.floor(a)\<close>\<close>

fun jsFloor :: "jsnum \<Rightarrow> jsnum" where
  "jsFloor (Fin a) = Fin (of_int \<lfloor>a\<rfloor>)"
| "jsFloor a = a"

text \<open>\<^verbatim>\<open>a < b\<close>, \<^verbatim>\<open>a <= b\<close> and \<^verbatim>\<open>a === b\<close>: every comparison with NaN is false.\<close>

fun jsLt :: "jsnum \<Rightarrow> jsnum \<Rightarrow> bool" where
  "jsLt NaN b = False"
| "jsLt a NaN = False"
| "jsLt (Fin a) (Fin b) = (a < b)"
| "jsLt a NInf = False"
| "jsLt NInf b = True"
| "jsLt PInf b = False"
| "jsLt a PInf = True"

fun jsLe :: "jsnum \<Rightarrow> jsnum \<Rightarrow> bool" where
  "jsLe NaN b = False"
| "jsLe a NaN = False"
| "jsLe (Fin a) (Fin b) = (a \<le> b)"
| "jsLe NInf b = True"
| "jsLe a PInf = True"
| "jsLe a b = False"

definition jsEq :: "jsnum \<Rightarrow> jsnum \<Rightarrow> bool" where
  "jsEq a b \<longleftrightarrow> a \<noteq> NaN \<and> a = b"

text \<open>\<^verbatim>\<open>Math.min(a, b)\<close>\<close>

definition jsMin :: "jsnum \<Rightarrow> jsnum \<Rightarrow> jsnum" where
  "jsMin a b = (if a = NaN \<or> b = NaN then NaN else if jsLt a b then a else b)"

text \<open>The number of elements of an array, as a number.\<close>

definition ofNat :: "nat \<Rightarrow> jsnum" where
  "ofNat n = Fin (real n)"

text \<open>
  \<^verbatim>\<open>xs.slice(w)\<close>: the start is \<open>w\<close> cut towards zero, with NaN taken as 0, and a
  negative start counts from the end.
\<close>

definition sliceFrom :: "jsnum \<Rightarrow> 'a list \<Rightarrow> 'a list" where
  "sliceFrom w xs =
     (case w of
        Fin x \<Rightarrow>
          (let n = (if 0 \<le> x then \<lfloor>x\<rfloor> else \<lceil>x\<rceil>)
           in if n < 0 then drop (nat (max (int (length xs) + n) 0)) xs else drop (nat n) xs)
      | PInf \<Rightarrow> []
      | NInf \<Rightarrow> xs
      | NaN \<Rightarrow> xs)"

section \<open>The narration controller\<close>

record TTSPreferences =
  voice :: "jsstring option"
  rate :: "jsnum option"

record TTSProgress =
  currentChunk :: jsnum
  totalChunks :: nat
  progress :: jsnum

text \<open>
  The calls made to \<^verbatim>\<open>expo-speech\<close>. \<open>Speak text voice rate startIndex sid\<close> is
  \<^verbatim>\<open>Speech.speak(textToSpeak, options)\<close>: the voice and the rate of the options, and the
  \<^verbatim>\<open>startIndex\<close> and \<^verbatim>\<open>sid\<close> that the three callbacks of the options close over.
\<close>

datatype engine_call =
  Speak jsstring "jsstring option" jsnum jsnum int
| Stop
| Pause
| Resume

text \<open>
  The module's variables. \<open>playbackPromise\<close> says whether a pending promise (and with it
  \<^verbatim>\<open>playbackResolve\<close>) exists, \<open>progressCallback\<close> whether a callback is registered.
  \<open>engine\<close> and \<open>reported\<close> are the effects: the calls made to the speech engine and the
  values handed to the progress callback, oldest first. \<^verbatim>\<open>sessionId\<close> only counts up
  from 0 by one and \<^verbatim>\<open>chunkStartTime\<close> is a value of \<^verbatim>\<open>Date.now()\<close>: numbers
  holding integers far below \<open>2\<^sup>5\<^sup>3\<close>, modelled as integers. The chunk index takes
  whatever number \<^verbatim>\<open>seekToChunk\<close> is given.
\<close>

record tts_state =
  isPlaying :: bool
  isPaused :: bool
  currentText :: jsstring
  chunks :: "jsstring list"
  currentChunkIndex :: jsnum
  sessionId :: int
  playbackPromise :: bool
  currentPreferences :: TTSPreferences
  progressCallback :: bool
  chunkStartTime :: "int option"
  chunkStartPrefs :: "TTSPreferences option"
  overrideFirstChunk :: "jsstring option"
  isInitiatingPlayback :: bool
  engine :: "engine_call list"
  reported :: "TTSProgress list"

text \<open>
  What the controller reads from outside: \<^verbatim>\<open>Date.now()\<close>, whether
  \<^verbatim>\<open>Platform.OS\<close> is \<^verbatim>\<open>'android'\<close>, and whether \<^verbatim>\<open>Speech.pause()\<close> and
  \<^verbatim>\<open>Speech.resume()\<close> throw.

  An exported function that awaits \<^verbatim>\<open>Speech.stop()\<close> runs in two steps, and callbacks
  of the engine and other calls of the controller can run in between. For
  \<^verbatim>\<open>speakText\<close>, \<^verbatim>\<open>restartSpeech\<close>, \<^verbatim>\<open>resumeSpeech\<close> and \<^verbatim>\<open>seekToChunk\<close> the two
  steps are given one by one; the function under its own name is the run in which
  nothing happens in between.
\<close>

record env =
  now :: int
  android :: bool
  pauseThrows :: bool
  resumeThrows :: bool

definition initial :: tts_state where
  "initial =
     \<lparr>isPlaying = False, isPaused = False, currentText = [], chunks = [],
      currentChunkIndex = Fin 0, sessionId = 0, playbackPromise = False,
      currentPreferences = \<lparr>voice = None, rate = Some (Fin 1)\<rparr>, progressCallback = False,
      chunkStartTime = None, chunkStartPrefs = None, overrideFirstChunk = None,
      isInitiatingPlayback = False, engine = [], reported = []\<rparr>"

text \<open>
  \<^verbatim>\<open>chunks[i] || ''\<close>: the array has an element only at a whole number from 0 to below
  its length.
\<close>

definition chunkAt :: "jsstring list \<Rightarrow> jsnum \<Rightarrow> jsstring" where
  "chunkAt cs i =
     (case i of
        Fin x \<Rightarrow> (if x = of_int \<lfloor>x\<rfloor> \<and> 0 \<le> x \<and> x < real (length cs) then cs ! nat \<lfloor>x\<rfloor> else [])
      | PInf \<Rightarrow> []
      | NInf \<Rightarrow> []
      | NaN \<Rightarrow> [])"

definition getCurrentProgress :: "tts_state \<Rightarrow> TTSProgress" where
  "getCurrentProgress st =
     \<lparr>currentChunk = jsAdd (currentChunkIndex st) (Fin 1),
      totalChunks = length (chunks st),
      progress = (if length (chunks st) > 0
                  then jsDivPos (jsAdd (currentChunkIndex st) (Fin 1)) (real (length (chunks st)))
                  else Fin 0)\<rparr>"

definition updateProgress :: "tts_state \<Rightarrow> tts_state" where
  "updateProgress st =
     (if progressCallback st \<and> length (chunks st) > 0
      then st\<lparr>reported := reported st @ [getCurrentProgress st]\<rparr>
      else st)"

definition setProgressCallback :: "bool \<Rightarrow> tts_state \<Rightarrow> tts_state" where
  "setProgressCallback cb st = st\<lparr>progressCallback := cb\<rparr>"

definition ensurePlaybackPromise :: "tts_state \<Rightarrow> tts_state" where
  "ensurePlaybackPromise st = st\<lparr>playbackPromise := True\<rparr>"

text \<open>\<^verbatim>\<open>playbackResolve?.()\<close>\<close>

definition resolvePlayback :: "tts_state \<Rightarrow> tts_state" where
  "resolvePlayback st = st\<lparr>playbackPromise := False\<rparr>"

text \<open>The truth value of a string or of a time that may be \<^verbatim>\<open>null\<close>.\<close>

definition truthyStr :: "jsstring option \<Rightarrow> bool" where
  "truthyStr v = (case v of None \<Rightarrow> False | Some s \<Rightarrow> s \<noteq> [])"

definition truthyNum :: "int option \<Rightarrow> bool" where
  "truthyNum v = (case v of None \<Rightarrow> False | Some n \<Rightarrow> n \<noteq> 0)"

text \<open>\<^verbatim>\<open>prefs.rate ?? 1.0\<close>\<close>

definition rateOr1 :: "TTSPreferences \<Rightarrow> jsnum" where
  "rateOr1 p = (case rate p of None \<Rightarrow> Fin 1 | Some r \<Rightarrow> r)"

text \<open>\<^verbatim>\<open>if (prefs.voice) options.voice = prefs.voice\<close>\<close>

definition optionsVoice :: "TTSPreferences \<Rightarrow> jsstring option" where
  "optionsVoice p = (if truthyStr (voice p) then voice p else None)"

definition sessionOver :: "tts_state \<Rightarrow> tts_state" where
  "sessionOver st =
     resolvePlayback (updateProgress (st\<lparr>isPlaying := False, isPaused := False, currentChunkIndex := Fin 0\<rparr>))"

definition speakChunkChain :: "env \<Rightarrow> jsnum \<Rightarrow> int \<Rightarrow> tts_state \<Rightarrow> tts_state" where
  "speakChunkChain e startIndex sid st =
     (if sid \<noteq> sessionId st then st
      else if jsLe (ofNat (length (chunks st))) startIndex then sessionOver st
      else
        let st1 = updateProgress (st\<lparr>currentChunkIndex := startIndex, isPlaying := True, isPaused := False\<rparr>);
            prefs = currentPreferences st1;
            useOverride = (truthyStr (overrideFirstChunk st1) \<and> jsEq startIndex (currentChunkIndex st1));
            textToSpeak = (if useOverride then the (overrideFirstChunk st1) else chunkAt (chunks st1) startIndex);
            st2 = (if useOverride then st1\<lparr>overrideFirstChunk := None\<rparr> else st1)
        in if textToSpeak = [] \<or> length (trim textToSpeak) = 0 then st2
           else st2\<lparr>chunkStartTime := Some (now e), chunkStartPrefs := Some prefs,
                    engine := engine st2 @
                      [Speak textToSpeak (optionsVoice prefs) (rateOr1 prefs) startIndex sid]\<rparr>)"

text \<open>The three callbacks of the options built by \<^verbatim>\<open>speakChunkChain(startIndex, sid)\<close>.\<close>

definition onDone :: "env \<Rightarrow> jsnum \<Rightarrow> int \<Rightarrow> tts_state \<Rightarrow> tts_state" where
  "onDone e startIndex sid st =
     (if sid \<noteq> sessionId st then st
      else if isPaused st then st
      else
        let st1 = st\<lparr>chunkStartTime := None, chunkStartPrefs := None\<rparr>
        in if jsLt (jsAdd startIndex (Fin 1)) (ofNat (length (chunks st1)))
           then speakChunkChain e (jsAdd startIndex (Fin 1)) sid st1
           else sessionOver st1)"

definition onStopped :: "jsnum \<Rightarrow> int \<Rightarrow> tts_state \<Rightarrow> tts_state" where
  "onStopped startIndex sid st =
     (if sid \<noteq> sessionId st then st
      else
        let st1 = st\<lparr>isPlaying := False, chunkStartTime := None, chunkStartPrefs := None\<rparr>
        in if \<not> isPaused st1 then resolvePlayback (updateProgress st1) else st1)"

definition onError :: "jsnum \<Rightarrow> int \<Rightarrow> tts_state \<Rightarrow> tts_state" where
  "onError startIndex sid st =
     (if sid \<noteq> sessionId st then st
      else resolvePlayback (updateProgress
             (st\<lparr>isPlaying := False, chunkStartTime := None, chunkStartPrefs := None\<rparr>)))"

text \<open>\<^verbatim>\<open>if (preferences) currentPreferences = { ...preferences }\<close>\<close>

definition applyPreferences :: "TTSPreferences option \<Rightarrow> tts_state \<Rightarrow> tts_state" where
  "applyPreferences preferences st =
     (case preferences of None \<Rightarrow> st | Some p \<Rightarrow> st\<lparr>currentPreferences := p\<rparr>)"

definition pauseSpeech :: "env \<Rightarrow> tts_state \<Rightarrow> tts_state" where
  "pauseSpeech e st =
     (let st1 = st\<lparr>isPaused := True, isPlaying := False\<rparr>;
          calls = (if \<not> android e then (if pauseThrows e then [Pause, Stop] else [Pause]) else [Stop])
      in updateProgress (st1\<lparr>engine := engine st1 @ calls\<rparr>))"

text \<open>
  \<^verbatim>\<open>resumeSpeech\<close> from taking the flag to \<^verbatim>\<open>await Speech.stop()\<close>, and from there
  to the end; \<open>resumeChunkIndex\<close> is the index saved in between.
\<close>

definition resumeSpeech_setup :: "tts_state \<Rightarrow> tts_state" where
  "resumeSpeech_setup st = st\<lparr>isInitiatingPlayback := True, engine := engine st @ [Stop]\<rparr>"

definition resumeSpeech_finish :: "env \<Rightarrow> jsnum \<Rightarrow> tts_state \<Rightarrow> tts_state" where
  "resumeSpeech_finish e resumeChunkIndex st =
     (let st1 = st\<lparr>isPaused := False, isPlaying := True\<rparr>;
          st2 = (if \<not> android e then st1\<lparr>engine := engine st1 @ [Resume]\<rparr> else st1)
      in if \<not> android e \<and> \<not> resumeThrows e
         then (ensurePlaybackPromise (updateProgress st2))\<lparr>isInitiatingPlayback := False\<rparr>
         else (ensurePlaybackPromise (speakChunkChain e resumeChunkIndex (sessionId st2) st2))
                \<lparr>isInitiatingPlayback := False\<rparr>)"

definition resumeSpeech :: "env \<Rightarrow> tts_state \<Rightarrow> tts_state" where
  "resumeSpeech e st =
     (if isInitiatingPlayback st then st
      else if currentText st = [] \<or> length (chunks st) = 0 then st
      else resumeSpeech_finish e (currentChunkIndex st) (resumeSpeech_setup st))"

text \<open>
  The end of \<^verbatim>\<open>speakText\<close> and \<^verbatim>\<open>restartSpeech\<close>, after \<^verbatim>\<open>Speech.stop()\<close>:
  the chain is started at 0 under the session id read at that moment, and the
  \<^verbatim>\<open>finally\<close> block gives the flag back.
\<close>

definition startChain :: "env \<Rightarrow> tts_state \<Rightarrow> tts_state" where
  "startChain e st =
     (speakChunkChain e (Fin 0) (sessionId st) (ensurePlaybackPromise st))\<lparr>isInitiatingPlayback := False\<rparr>"

text \<open>
  \<^verbatim>\<open>speakText\<close>, for a text that is not resumed, from taking the flag to
  \<^verbatim>\<open>if (isPlaying) await Speech.stop()\<close>.
\<close>

definition speakText_setup :: "jsstring \<Rightarrow> TTSPreferences option \<Rightarrow> tts_state \<Rightarrow> tts_state" where
  "speakText_setup text preferences st =
     (let st0 = st\<lparr>isInitiatingPlayback := True\<rparr>;
          isSameText = (currentText st0 = text \<and> length (chunks st0) > 0);
          st1 = (if isSameText
                 then (applyPreferences preferences st0)
                        \<lparr>currentChunkIndex := Fin 0, isPaused := False, sessionId := sessionId st0 + 1\<rparr>
                 else applyPreferences preferences
                        (st0\<lparr>currentText := text, chunks := buildChunks text, currentChunkIndex := Fin 0,
                             isPaused := False, sessionId := sessionId st0 + 1\<rparr>))
      in if isPlaying st1 then st1\<lparr>engine := engine st1 @ [Stop]\<rparr> else st1)"

definition speakText :: "env \<Rightarrow> jsstring \<Rightarrow> TTSPreferences option \<Rightarrow> tts_state \<Rightarrow> tts_state" where
  "speakText e text preferences st =
     (if isInitiatingPlayback st then st
      else if isPaused st \<and> currentText st = text
      then (resumeSpeech e (st\<lparr>isInitiatingPlayback := True\<rparr>))\<lparr>isInitiatingPlayback := False\<rparr>
      else startChain e (speakText_setup text preferences st))"

text \<open>\<^verbatim>\<open>restartSpeech\<close> from taking the flag to \<^verbatim>\<open>await Speech.stop()\<close>.\<close>

definition restartSpeech_setup :: "jsstring \<Rightarrow> TTSPreferences option \<Rightarrow> tts_state \<Rightarrow> tts_state" where
  "restartSpeech_setup text preferences st =
     (let st0 = st\<lparr>isInitiatingPlayback := True\<rparr>;
          st1 = applyPreferences preferences
                  (st0\<lparr>currentText := text, chunks := buildChunks text, currentChunkIndex := Fin 0,
                       isPaused := False, sessionId := sessionId st0 + 1\<rparr>)
      in st1\<lparr>engine := engine st1 @ [Stop]\<rparr>)"

definition restartSpeech :: "env \<Rightarrow> jsstring \<Rightarrow> TTSPreferences option \<Rightarrow> tts_state \<Rightarrow> tts_state" where
  "restartSpeech e text preferences st =
     (if isInitiatingPlayback st then st
      else startChain e (restartSpeech_setup text preferences st))"

text \<open>
  \<^verbatim>\<open>seekToChunk\<close> up to \<^verbatim>\<open>await Speech.stop()\<close>: \<open>None\<close> when one of the two
  guards returns, and the state at the \<^verbatim>\<open>await\<close> otherwise. Neither the flag nor the
  session id is touched before the \<^verbatim>\<open>await\<close>.
\<close>

definition seekToChunk_setup :: "jsnum \<Rightarrow> tts_state \<Rightarrow> tts_state option" where
  "seekToChunk_setup chunkIndex st =
     (if currentText st = [] \<or> length (chunks st) = 0 then None
      else if jsLt chunkIndex (Fin 0) \<or> jsLe (ofNat (length (chunks st))) chunkIndex then None
      else Some (st\<lparr>engine := engine st @ [Stop]\<rparr>))"

text \<open>
  \<^verbatim>\<open>seekToChunk\<close> after the \<^verbatim>\<open>await\<close>, on the state found then; \<open>wasPlaying\<close> and
  \<open>wasPaused\<close> were read before it.
\<close>

definition seekToChunk_finish :: "env \<Rightarrow> jsnum \<Rightarrow> bool \<Rightarrow> bool \<Rightarrow> tts_state \<Rightarrow> tts_state" where
  "seekToChunk_finish e chunkIndex wasPlaying wasPaused st =
     (let st2 = updateProgress
                  (st\<lparr>currentChunkIndex := chunkIndex, isPaused := False, sessionId := sessionId st + 1\<rparr>)
      in if wasPlaying \<or> wasPaused
         then speakChunkChain e chunkIndex (sessionId st2) (ensurePlaybackPromise st2)
         else st2)"

text \<open>
  \<^verbatim>\<open>seekToChunk\<close> with \<open>between\<close> running while \<^verbatim>\<open>Speech.stop()\<close> is awaited, and
  the run in which nothing does.
\<close>

definition seekToChunk_during ::
  "env \<Rightarrow> jsnum \<Rightarrow> (tts_state \<Rightarrow> tts_state) \<Rightarrow> tts_state \<Rightarrow> tts_state" where
  "seekToChunk_during e chunkIndex between st =
     (case seekToChunk_setup chunkIndex st of
        None \<Rightarrow> st
      | Some st1 \<Rightarrow> seekToChunk_finish e chunkIndex (isPlaying st) (isPaused st) (between st1))"

definition seekToChunk :: "env \<Rightarrow> jsnum \<Rightarrow> tts_state \<Rightarrow> tts_state" where
  "seekToChunk e chunkIndex st = seekToChunk_during e chunkIndex (\<lambda>s. s) st"

text \<open>
  The estimate of \<^verbatim>\<open>setPreferences\<close>. \<^verbatim>\<open>Date.now()\<close> and \<^verbatim>\<open>chunkStartTime\<close> are
  whole numbers of milliseconds, so \<^verbatim>\<open>Math.max(0, now - chunkStartTime)\<close> is exact; the
  division, the two products and the floor are those of doubles.
\<close>

definition wordsSpoken :: "int \<Rightarrow> int \<Rightarrow> TTSPreferences \<Rightarrow> jsnum" where
  "wordsSpoken nowMs startMs startPrefs =
     (let elapsedMs = max 0 (nowMs - startMs);
          elapsedSec = jsDivPos (Fin (of_int elapsedMs)) 1000;
          baseWps = Fin 3;
          usedRate = rateOr1 startPrefs;
          wordsPerSec = jsMul baseWps usedRate
      in jsFloor (jsMul elapsedSec wordsPerSec))"

text \<open>
  The \<^verbatim>\<open>try\<close> block of \<^verbatim>\<open>setPreferences\<close>; nothing in it throws.
  \<^verbatim>\<open>chunks.length - 1\<close> is the sum of the length and \<open>-1\<close>.
\<close>

definition estimateOffset :: "env \<Rightarrow> tts_state \<Rightarrow> tts_state" where
  "estimateOffset e st =
     (if truthyNum (chunkStartTime st) \<and> chunkStartPrefs st \<noteq> None
         \<and> chunkAt (chunks st) (currentChunkIndex st) \<noteq> []
      then
        let chunkText = chunkAt (chunks st) (currentChunkIndex st);
            words = splitWords chunkText;
            totalWords = (if length words = 0 then 1 else length words);
            spoken = wordsSpoken (now e) (the (chunkStartTime st)) (the (chunkStartPrefs st))
        in if jsLe (ofNat totalWords) spoken
           then st\<lparr>currentChunkIndex :=
                     jsMin (jsAdd (currentChunkIndex st) (Fin 1))
                       (jsAdd (ofNat (length (chunks st))) (Fin (- 1)))\<rparr>
           else if jsLt (Fin 0) spoken
           then (let remainingText = trim (joinSp (sliceFrom spoken words))
                 in if length remainingText > 0 then st\<lparr>overrideFirstChunk := Some remainingText\<rparr> else st)
           else st
      else st)"

text \<open>
  \<^verbatim>\<open>setPreferences\<close>: \<open>st4\<close> is the state at \<^verbatim>\<open>await Speech.stop()\<close>, with the session
  id already raised, and the chain is started right after it.
\<close>

definition setPreferences :: "env \<Rightarrow> TTSPreferences \<Rightarrow> tts_state \<Rightarrow> tts_state" where
  "setPreferences e preferences st =
     (let st1 = st\<lparr>currentPreferences := preferences\<rparr>
      in if \<not> isPlaying st1 \<and> \<not> isPaused st1 then st1
         else
           let st2 = estimateOffset e st1;
               st3 = st2\<lparr>sessionId := sessionId st2 + 1\<rparr>;
               sid = sessionId st3;
               st4 = st3\<lparr>engine := engine st3 @ [Stop]\<rparr>
           in speakChunkChain e (currentChunkIndex st4) sid (ensurePlaybackPromise st4))"

section \<open>Predicates of the statements\<close>

text \<open>A string that is not empty and neither starts nor ends with whitespace.\<close>

definition tight :: "jsstring \<Rightarrow> bool" where
  "tight s \<longleftrightarrow> s \<noteq> [] \<and> \<not> is_space (hd s) \<and> \<not> is_space (last s)"

text \<open>Every whitespace code unit is a space with no whitespace right after it.\<close>

fun singleSpaced :: "jsstring \<Rightarrow> bool" where
  "singleSpaced [] = True"
| "singleSpaced (c # cs) =
     ((if is_space c then c = SP \<and> (cs = [] \<or> \<not> is_space (hd cs)) else True) \<and> singleSpaced cs)"

text \<open>
  What \<^verbatim>\<open>speakChunkChain(i, sid)\<close> hands to the engine from a state: the pending
  override when there is one (and \<open>i\<close> is not NaN), the chunk at \<open>i\<close> otherwise; nothing
  is spoken when it is blank.
\<close>

definition nextUtterance :: "tts_state \<Rightarrow> jsnum \<Rightarrow> jsstring" where
  "nextUtterance st i =
     (if truthyStr (overrideFirstChunk st) \<and> jsEq i i then the (overrideFirstChunk st)
      else chunkAt (chunks st) i)"

definition blank :: "jsstring \<Rightarrow> bool" where
  "blank s \<longleftrightarrow> trim s = []"

text \<open>The code units of a string that are not whitespace, in order.\<close>

definition inkOf :: "jsstring \<Rightarrow> jsstring" where
  "inkOf s = filter (\<lambda>c. \<not> is_space c) s"

text \<open>A chunk as the engine can speak it: not empty, within the bound, not only whitespace.\<close>

definition goodChunk :: "jsstring \<Rightarrow> bool" where
  "goodChunk c \<longleftrightarrow> c \<noteq> [] \<and> length c \<le> MAX_CHUNK_LEN \<and> \<not> blank c"

text \<open>
  The chunks that a state of the loop over the sentences stands for: \<^verbatim>\<open>out\<close>, and
  \<^verbatim>\<open>buf\<close> when it is not empty.
\<close>

definition pending :: "jsstring list \<times> jsstring \<Rightarrow> jsstring list" where
  "pending ob = fst ob @ (if snd ob = [] then [] else [snd ob])"

text \<open>The invariants of the loop, for any sentences and for sentences within the bound.\<close>

definition loopInv :: "jsstring list \<times> jsstring \<Rightarrow> bool" where
  "loopInv ob \<longleftrightarrow>
     (\<forall>c\<in>set (fst ob). goodChunk c) \<and>
     (snd ob = [] \<or> (tight (snd ob) \<and> length (snd ob) \<le> MAX_CHUNK_LEN))"

definition tightInv :: "jsstring list \<times> jsstring \<Rightarrow> bool" where
  "tightInv ob \<longleftrightarrow> (\<forall>c\<in>set (fst ob). tight c) \<and> (snd ob = [] \<or> tight (snd ob))"

text \<open>The whole number of words that an estimate stands for.\<close>

definition toNat :: "jsnum \<Rightarrow> nat" where
  "toNat w = (case w of Fin x \<Rightarrow> nat \<lfloor>x\<rfloor> | PInf \<Rightarrow> 0 | NInf \<Rightarrow> 0 | NaN \<Rightarrow> 0)"

text \<open>
  A value handed to the progress callback is well formed when the chunk number is
  between 1 and the number of chunks and the fraction is between 0 and 1.
\<close>

definition goodProgress :: "TTSProgress \<Rightarrow> bool" where
  "goodProgress r \<longleftrightarrow>
     jsLe (Fin 1) (currentChunk r) \<and> jsLe (currentChunk r) (ofNat (totalChunks r)) \<and>
     jsLe (Fin 0) (progress r) \<and> jsLe (progress r) (Fin 1)"


section \<open>Example inputs\<close>

definition droid :: env where
  "droid = \<lparr>now = 1000, android = True, pauseThrows = False, resumeThrows = False\<rparr>"

definition story1 :: jsstring where
  "story1 = js ''One. Two.''"

text \<open>1500 letters \<^verbatim>\<open>a\<close>: one sentence with no punctuation and no whitespace.\<close>

definition long1500 :: jsstring where
  "long1500 = replicate 1500 0x61"

text \<open>599 letters \<^verbatim>\<open>a\<close>, a space and \<^verbatim>\<open>bb\<close>: one sentence of 602 code units.\<close>

definition spaced602 :: jsstring where
  "spaced602 = replicate 599 0x61 @ [SP, 0x62, 0x62]"

text \<open>A sentence of 601 letters \<^verbatim>\<open>a\<close> and a full stop, then the sentence \<^verbatim>\<open>b\<close>.\<close>

definition twoSentences :: jsstring where
  "twoSentences = replicate 601 0x61 @ js ''. b''"

text \<open>Three sentences of 600 code units each, and the story made of them.\<close>

definition sentA :: jsstring where
  "sentA = replicate 599 0x61 @ [0x2E]"

definition sentB :: jsstring where
  "sentB = replicate 599 0x62 @ [0x2E]"

definition sentC :: jsstring where
  "sentC = replicate 599 0x63 @ [0x2E]"

definition story3 :: jsstring where
  "story3 = sentA @ [SP] @ sentB @ [SP] @ sentC"

text \<open>The story is played on Android and then paused.\<close>

definition paused1 :: tts_state where
  "paused1 = pauseSpeech droid (speakText droid story1 None initial)"

text \<open>A platform with a working engine-level pause and resume.\<close>

definition ios :: env where
  "ios = \<lparr>now = 5000, android = False, pauseThrows = False, resumeThrows = False\<rparr>"

text \<open>
  The story of three chunks is started and its first chunk has been spoken to the end:
  the session plays chunk 1 of 3. Starting a story and \<^verbatim>\<open>onDone\<close> read the clock
  only, so this is the state on every platform.
\<close>

definition playing3 :: tts_state where
  "playing3 = onDone droid (Fin 0) 1 (speakText droid story3 None initial)"

text \<open>A chunk of ten words, started at time 1000 at rate 1.\<close>

definition tenWords :: jsstring where
  "tenWords = js ''one two three four five six seven eight nine ten''"

definition playing10 :: tts_state where
  "playing10 = speakText droid tenWords None initial"

text \<open>1.667 seconds and 60 seconds after the chunk started.\<close>

definition mid :: env where
  "mid = \<lparr>now = 2667, android = True, pauseThrows = False, resumeThrows = False\<rparr>"

definition late :: env where
  "late = \<lparr>now = 61000, android = True, pauseThrows = False, resumeThrows = False\<rparr>"

definition faster :: TTSPreferences where
  "faster = \<lparr>voice = None, rate = Some (Fin (3 / 2))\<rparr>"

text \<open>The rate 2.5, the highest that the interface offers.\<close>

definition fastest :: TTSPreferences where
  "fastest = \<lparr>voice = None, rate = Some (Fin (5 / 2))\<rparr>"

text \<open>
  A progress callback is registered on the session that plays chunk 1 of 3, and on a
  session that plays a story of one chunk.
\<close>

definition watched3 :: tts_state where
  "watched3 = setProgressCallback True playing3"

definition watched1 :: tts_state where
  "watched1 = setProgressCallback True (speakText droid story1 None initial)"
section \<open>Properties of the numbers\<close>

lemma halfEven_int: "halfEven (of_int m) = m"
  by (simp add: halfEven_def)

lemma powr2_int: "(2::real) powr real_of_int k = 2 powi k"
  by (simp add: powr_real_of_int')

lemma powr2_int_Suc: "(2::real) powr (real_of_int k + 1) = 2 powi (k + 1)"
  using powr2_int [of "k + 1"] by simp

lemma floor_log2_le:
  assumes "0 < x" and "x < 2 powi (k + 1)"
  shows "\<lfloor>log 2 x\<rfloor> \<le> k"
proof -
  have "x < 2 powr real_of_int (k + 1)"
    using assms(2) by (simp add: powr2_int_Suc)
  then have "log 2 x < real_of_int (k + 1)"
    using assms(1) by (simp add: log_less_iff)
  then show ?thesis
    by (simp add: floor_le_iff)
qed

lemma ulpExp_eq:
  assumes "0 < x" and "2 powi e \<le> x" and "x < 2 powi (e + 1)" and "- 1022 \<le> e"
  shows "ulpExp x = e - 52"
proof -
  have "\<lfloor>log 2 x\<rfloor> = e"
    using assms(1,2,3) by (simp add: floor_log_eq_powr_iff powr2_int powr2_int_Suc)
  then show ?thesis
    using assms(1,4) by (simp add: ulpExp_def)
qed

lemma nearest_eval:
  assumes "0 < x" and "2 powi e \<le> x" and "x < 2 powi (e + 1)" and "- 1022 \<le> e"
  shows "nearest x = of_int (halfEven (x / 2 powi (e - 52))) * 2 powi (e - 52)"
  using assms(1) ulpExp_eq [OF assms] by (simp add: nearest_def)

lemma nearest_exact:
  assumes "x = of_int m * 2 powi k" and "\<bar>m\<bar> < 2 ^ 53" and "- 1074 \<le> k"
  shows "nearest x = x"
proof (cases "x = 0")
  case True
  then show ?thesis by (simp add: nearest_def)
next
  case False
  define q where "q = ulpExp x"
  have ax: "\<bar>x\<bar> = of_int \<bar>m\<bar> * 2 powi k"
    using assms(1) by (simp add: abs_mult)
  have pos: "0 < \<bar>x\<bar>" using False by simp
  have "of_int \<bar>m\<bar> < (2::real) ^ 53"
    using assms(2) by (metis of_int_less_iff of_int_numeral of_int_power)
  then have "\<bar>x\<bar> < 2 ^ 53 * 2 powi k"
    unfolding ax by (simp add: power_int_def)
  also have "\<dots> = 2 powi (k + 52 + 1)"
    by (simp add: power_int_add)
  finally have "\<lfloor>log 2 \<bar>x\<bar>\<rfloor> \<le> k + 52"
    using pos floor_log2_le by blast
  then have qk: "q \<le> k"
    using assms(3) by (simp add: q_def ulpExp_def)
  have split: "(2::real) powi k = 2 ^ nat (k - q) * 2 powi q"
  proof -
    have "(2::real) powi k = 2 powi ((k - q) + q)" by simp
    also have "\<dots> = 2 powi (k - q) * 2 powi q"
      by (rule power_int_add) simp
    finally show ?thesis using qk by (simp add: power_int_nonneg_exp)
  qed
  have "\<bar>x\<bar> / 2 powi q = of_int (\<bar>m\<bar> * 2 ^ nat (k - q))"
    unfolding ax split by simp
  then have "of_int (halfEven (\<bar>x\<bar> / 2 powi q)) * 2 powi q = \<bar>x\<bar>"
    unfolding halfEven_int ax split by (simp only: halfEven_int) simp
  then have "nearest x = sgn x * \<bar>x\<bar>"
    using False by (simp add: nearest_def q_def)
  then show ?thesis by (simp add: sgn_mult_abs)
qed

lemma toDouble_exact:
  assumes "x = of_int m * 2 powi k" and "\<bar>m\<bar> < 2 ^ 53" and "- 1074 \<le> k" and "\<bar>x\<bar> < 2 ^ 1024"
  shows "toDouble x = Fin x"
  using nearest_exact [OF assms(1,2,3)] assms(4) by (simp add: toDouble_def Let_def abs_less_iff)

lemma toDouble_int:
  assumes "\<bar>n\<bar> < 2 ^ 53"
  shows "toDouble (of_int n) = Fin (of_int n)"
proof (rule toDouble_exact [where m = n and k = 0])
  have "real_of_int \<bar>n\<bar> < 2 ^ 53"
    using assms by (metis of_int_less_iff of_int_numeral of_int_power)
  also have "\<dots> < (2::real) ^ 1024" by simp
  finally show "\<bar>real_of_int n\<bar> < 2 ^ 1024" by simp
qed (use assms in simp_all)


lemma toDouble_dyadic:
  assumes "x = of_int m / 2 ^ j" and "\<bar>m\<bar> < 2 ^ 53" and "j \<le> 1074"
  shows "toDouble x = Fin x"
proof (rule toDouble_exact [where m = m and k = "- int j"])
  show "x = real_of_int m * 2 powi (- int j)"
    using assms(1) by (simp add: power_int_minus divide_inverse)
  have "real_of_int \<bar>m\<bar> < 2 ^ 53"
    using assms(2) by (metis of_int_less_iff of_int_numeral of_int_power)
  moreover have "\<bar>x\<bar> \<le> real_of_int \<bar>m\<bar>"
  proof -
    have "real_of_int \<bar>m\<bar> * 1 \<le> real_of_int \<bar>m\<bar> * 2 ^ j"
      by (rule mult_left_mono) simp_all
    then show ?thesis
      unfolding assms(1) by (simp add: divide_le_eq)
  qed
  moreover have "(2::real) ^ 53 < 2 ^ 1024" by simp
  ultimately show "\<bar>x\<bar> < 2 ^ 1024" by linarith
qed (use assms in simp_all)

lemma halfEven_near:
  assumes "\<bar>y - of_int f\<bar> < 1 / 2"
  shows "halfEven y = f"
proof (cases "of_int f \<le> y")
  case True
  with assms have "\<lfloor>y\<rfloor> = f" by (simp add: floor_eq_iff abs_less_iff)
  with assms True show ?thesis by (simp add: halfEven_def)
next
  case False
  with assms have "\<lfloor>y\<rfloor> = f - 1" by (simp add: floor_eq_iff abs_less_iff)
  with assms False show ?thesis by (simp add: halfEven_def abs_less_iff)
qed

lemma toDouble_round:
  assumes "0 < x" and "2 powi e \<le> x" and "x < 2 powi (e + 1)" and "- 1022 \<le> e" and "e \<le> 52"
    and "\<bar>x * 2 ^ nat (52 - e) - of_int f\<bar> < 1 / 2"
  shows "toDouble x = Fin (of_int f / 2 ^ nat (52 - e))"
proof -
  have p: "(2::real) powi (e - 52) = 1 / 2 ^ nat (52 - e)"
    using assms(5) power_int_minus [of "2::real" "52 - e"] by (simp add: power_int_nonneg_exp divide_inverse)
  have n: "nearest x = of_int f / 2 ^ nat (52 - e)"
    using nearest_eval [OF assms(1-4)] halfEven_near [OF assms(6)] by (simp add: p)
  have "x < 2 powi 53"
    using assms(3,5) power_int_strict_increasing [of "e + 1" 53 "2::real"]
    by (cases "e + 1 = 53") auto
  then have x53: "x < 2 ^ 53" by simp
  define N :: real where "N = 2 ^ nat (52 - e)"
  have ge1: "1 \<le> N" by (simp add: N_def)
  have b: "of_int f < x * N + 1 / 2" "x * N - 1 / 2 < of_int f"
    using assms(6) unfolding N_def by linarith+
  have "of_int f / N < (x * N + 1 / 2) / N"
    using b(1) ge1 by (simp add: divide_strict_right_mono)
  also have "\<dots> = x + 1 / (2 * N)"
    using ge1 by (simp add: field_simps)
  also have "\<dots> \<le> x + 1"
    using ge1 by simp
  finally have up: "of_int f / N < x + 1" .
  have "0 \<le> x * N" using assms(1) ge1 by simp
  with b(2) have "- 1 < real_of_int f" by linarith
  then have "0 \<le> f" by linarith
  then have "0 \<le> of_int f / N" using ge1 by simp
  then have "real_of_int f / 2 ^ nat (52 - e) < x + 1" "- 1 < real_of_int f / 2 ^ nat (52 - e)"
    using up unfolding N_def by simp_all
  moreover have "(2::real) ^ 53 + 1 < 2 ^ 1024" by simp
  ultimately show ?thesis
    using x53 by (simp add: toDouble_def Let_def n)
qed

lemma toDouble_nat:
  assumes "n < 2 ^ 53"
  shows "toDouble (real n) = ofNat n"
proof -
  have "int n < 2 ^ 53"
    using assms of_nat_less_iff [where 'a = int, of n "2 ^ 53"] by simp
  then have "\<bar>int n\<bar> < 2 ^ 53" by simp
  from toDouble_int [OF this] show ?thesis by (simp add: ofNat_def)
qed

lemma toDouble_0 [simp]: "toDouble 0 = Fin 0"
  using toDouble_int [of 0] by simp

lemma toDouble_1 [simp]: "toDouble 1 = Fin 1"
  using toDouble_int [of 1] by simp

lemma toDouble_numeral [simp]:
  "(numeral n :: int) < 2 ^ 53 \<Longrightarrow> toDouble (numeral n) = Fin (numeral n)"
  using toDouble_int [of "numeral n"] by simp

lemma small_nat: "n < 2 ^ 32 \<Longrightarrow> n < 2 ^ 53" "n < 2 ^ 32 \<Longrightarrow> Suc n < 2 ^ 53"
  "n < 2 ^ 32 \<Longrightarrow> n - 1 < 2 ^ 53" for n :: nat
proof -
  have "(2::nat) ^ 32 < 2 ^ 53 - 1" by simp
  then show "n < 2 ^ 32 \<Longrightarrow> n < 2 ^ 53" "n < 2 ^ 32 \<Longrightarrow> Suc n < 2 ^ 53"
    "n < 2 ^ 32 \<Longrightarrow> n - 1 < 2 ^ 53"
    by linarith+
qed

lemma jsAdd_ofNat_1: "n < 2 ^ 32 \<Longrightarrow> jsAdd (ofNat n) (Fin 1) = ofNat (Suc n)"
  using toDouble_nat [OF small_nat(2), of n] by (simp add: ofNat_def add.commute)

lemma jsAdd_ofNat_m1: "0 < n \<Longrightarrow> n < 2 ^ 32 \<Longrightarrow> jsAdd (ofNat n) (Fin (- 1)) = ofNat (n - 1)"
  using toDouble_nat [OF small_nat(3), of n] by (simp add: ofNat_def of_nat_diff)

lemma jsLe_ofNat [simp]: "jsLe (ofNat a) (ofNat b) = (a \<le> b)"
  by (simp add: ofNat_def)

lemma jsLt_ofNat [simp]: "jsLt (ofNat a) (ofNat b) = (a < b)"
  by (simp add: ofNat_def)

lemma jsEq_ofNat [simp]: "jsEq (ofNat a) (ofNat b) = (a = b)"
  by (simp add: ofNat_def jsEq_def)

lemma jsMin_ofNat [simp]: "jsMin (ofNat a) (ofNat b) = ofNat (min a b)"
  by (simp add: ofNat_def jsMin_def min_def)

lemma ofNat_inject [simp]: "ofNat a = ofNat b \<longleftrightarrow> a = b"
  by (simp add: ofNat_def)

lemma ofNat_numeral: "Fin 0 = ofNat 0" "Fin 1 = ofNat 1" "Fin (numeral k) = ofNat (numeral k)"
  by (simp_all add: ofNat_def)

lemma jsLe_ofNat_Fin [simp]: "jsLe (ofNat n) (Fin x) = (real n \<le> x)" "jsLe (Fin x) (ofNat n) = (x \<le> real n)"
  by (simp_all add: ofNat_def)

lemma jsLt_ofNat_Fin [simp]: "jsLt (ofNat n) (Fin x) = (real n < x)" "jsLt (Fin x) (ofNat n) = (x < real n)"
  by (simp_all add: ofNat_def)

lemma jsEq_Fin [simp]: "jsEq (Fin x) (Fin y) = (x = y)"
  by (simp add: jsEq_def)

lemma chunkAt_ofNat: "chunkAt cs (ofNat k) = (if k < length cs then cs ! k else [])"
  by (simp add: chunkAt_def ofNat_def)

lemma chunkAt_Fin_nat: "chunkAt cs (Fin (real k)) = (if k < length cs then cs ! k else [])"
  by (simp add: chunkAt_def)

section \<open>Properties of the chunker\<close>

lemma is_space_SP [simp]: "is_space SP"
  by (simp add: is_space_def SP_def)

lemma terminator_not_space: "afterTerminator (Some c) \<Longrightarrow> \<not> is_space c"
  by (auto simp: afterTerminator_def is_space_def)

lemma afterTerminator_None [simp]: "\<not> afterTerminator None"
  by (simp add: afterTerminator_def)

subsection \<open>trim\<close>

lemma trim_Nil [simp]: "trim [] = []"
  by (simp add: trim_def)

lemma length_trim: "length (trim s) \<le> length s"
proof -
  have "length (trim s) \<le> length (dropWhile is_space s)"
    unfolding trim_def using length_dropWhile_le [of is_space "rev (dropWhile is_space s)"] by simp
  also have "\<dots> \<le> length s" by (rule length_dropWhile_le)
  finally show ?thesis .
qed

lemma trim_space_Cons [simp]: "is_space c \<Longrightarrow> trim (c # s) = trim s"
  by (simp add: trim_def)

lemma rev_dropWhile_rev_id: "s \<noteq> [] \<Longrightarrow> \<not> P (last s) \<Longrightarrow> rev (dropWhile P (rev s)) = s"
  by (cases s rule: rev_cases) auto

lemma trim_tight: "tight s \<Longrightarrow> trim s = s"
proof -
  assume t: "tight s"
  then have "dropWhile is_space s = s"
    by (cases s) (auto simp: tight_def)
  with t show ?thesis
    by (simp add: trim_def tight_def rev_dropWhile_rev_id)
qed

lemma trim_eq_Nil_iff: "trim s = [] \<longleftrightarrow> (\<forall>c\<in>set s. is_space c)"
proof
  assume "trim s = []"
  then have "\<forall>c\<in>set (dropWhile is_space s). is_space c"
    by (simp add: trim_def)
  then have "dropWhile is_space s = []"
    by (metis dropWhile_eq_Nil_conv dropWhile_idem)
  then show "\<forall>c\<in>set s. is_space c" by simp
next
  assume "\<forall>c\<in>set s. is_space c"
  then have "dropWhile is_space s = []" by simp
  then show "trim s = []" by (simp add: trim_def del: dropWhile_eq_Nil_conv)
qed

lemma trim_result: "trim s = [] \<or> tight (trim s)"
proof (cases "trim s = []")
  case True then show ?thesis by simp
next
  case False
  let ?d = "dropWhile is_space s"
  let ?r = "dropWhile is_space (rev ?d)"
  from False have r: "?r \<noteq> []" by (simp add: trim_def del: dropWhile_eq_Nil_conv)
  then have hdr: "\<not> is_space (hd ?r)" by (rule hd_dropWhile)
  have d: "?d \<noteq> []"
  proof
    assume "?d = []"
    then have "?r = []" by (simp del: dropWhile_eq_Nil_conv)
    with r show False by contradiction
  qed
  then have hdd: "\<not> is_space (hd ?d)" by (rule hd_dropWhile)
  have lastt: "last (trim s) = hd ?r"
    using r by (simp add: trim_def last_rev del: dropWhile_eq_Nil_conv)
  have "rev ?d = takeWhile is_space (rev ?d) @ ?r" by simp
  then have "?d = rev ?r @ rev (takeWhile is_space (rev ?d))"
    by (metis rev_append rev_rev_ident)
  then have "hd ?d = hd (rev ?r)"
    using r by (metis hd_append2 rev_is_Nil_conv)
  then have "\<not> is_space (hd (trim s))"
    using hdd by (simp add: trim_def)
  with lastt hdr False show ?thesis by (simp add: tight_def)
qed

lemma inkOf_trim: "inkOf (trim s) = inkOf s"
proof -
  have a: "filter (\<lambda>c. \<not> is_space c) (dropWhile is_space t) = filter (\<lambda>c. \<not> is_space c) t" for t
    by (induction t) auto
  have "inkOf (trim s) = rev (filter (\<lambda>c. \<not> is_space c) (dropWhile is_space (rev (dropWhile is_space s))))"
    by (simp add: inkOf_def trim_def rev_filter)
  also have "\<dots> = rev (filter (\<lambda>c. \<not> is_space c) (rev (dropWhile is_space s)))"
    by (simp only: a)
  also have "\<dots> = filter (\<lambda>c. \<not> is_space c) (dropWhile is_space s)"
    by (simp add: rev_filter)
  also have "\<dots> = inkOf s" by (simp only: a inkOf_def)
  finally show ?thesis .
qed

subsection \<open>collapse\<close>

lemma inkOf_dropWhile: "inkOf (dropWhile is_space t) = inkOf t"
  by (induction t) (auto simp: inkOf_def)

lemma inkOf_collapse: "inkOf (collapse s) = inkOf s"
proof (induction s rule: collapse.induct)
  case 1 show ?case by simp
next
  case (2 c cs)
  show ?case
  proof (cases "is_space c")
    case True
    with 2 have "inkOf (collapse (dropWhile is_space cs)) = inkOf (dropWhile is_space cs)" by simp
    with True show ?thesis by (simp add: inkOf_def inkOf_dropWhile [unfolded inkOf_def])
  next
    case False
    with 2 show ?thesis by (simp add: inkOf_def)
  qed
qed

lemma hd_collapse: "s \<noteq> [] \<Longrightarrow> \<not> is_space (hd s) \<Longrightarrow> collapse s \<noteq> [] \<and> hd (collapse s) = hd s"
  by (cases s) auto

lemma singleSpaced_collapse: "singleSpaced (collapse s)"
proof (induction s rule: collapse.induct)
  case 1 show ?case by simp
next
  case (2 c cs)
  show ?case
  proof (cases "is_space c")
    case True
    let ?d = "dropWhile is_space cs"
    from True 2 have ih: "singleSpaced (collapse ?d)" by simp
    have "collapse ?d = [] \<or> \<not> is_space (hd (collapse ?d))"
    proof (cases "?d = []")
      case True then show ?thesis by (simp del: dropWhile_eq_Nil_conv)
    next
      case False
      then have "\<not> is_space (hd ?d)" by (rule hd_dropWhile)
      with False show ?thesis using hd_collapse [of ?d] by simp
    qed
    with True ih show ?thesis by simp
  next
    case False
    with 2 show ?thesis by simp
  qed
qed

lemma collapse_id: "singleSpaced s \<Longrightarrow> collapse s = s"
proof (induction s rule: collapse.induct)
  case 1 show ?case by simp
next
  case (2 c cs)
  show ?case
  proof (cases "is_space c")
    case True
    with "2.prems" have c: "c = SP" and nx: "cs = [] \<or> \<not> is_space (hd cs)" and ss: "singleSpaced cs"
      by simp_all
    from nx have d: "dropWhile is_space cs = cs" by (cases cs) auto
    with True ss "2.IH"(1) have "collapse cs = cs" by simp
    with True c d show ?thesis by simp
  next
    case False
    with 2 show ?thesis by simp
  qed
qed

lemma singleSpaced_append: "singleSpaced (a @ b) \<Longrightarrow> singleSpaced a \<and> singleSpaced b"
proof (induction a)
  case Nil then show ?case by simp
next
  case (Cons x a)
  then show ?case by (cases a) (auto split: if_splits)
qed

lemma singleSpaced_dropWhile: "singleSpaced s \<Longrightarrow> singleSpaced (dropWhile P s)"
  using singleSpaced_append [of "takeWhile P s" "dropWhile P s"] by simp

lemma singleSpaced_trim: "singleSpaced s \<Longrightarrow> singleSpaced (trim s)"
proof -
  assume a: "singleSpaced s"
  let ?d = "dropWhile is_space s"
  have "rev ?d = takeWhile is_space (rev ?d) @ dropWhile is_space (rev ?d)" by simp
  then have "?d = trim s @ rev (takeWhile is_space (rev ?d))"
    unfolding trim_def by (metis rev_append rev_rev_ident)
  moreover from a have "singleSpaced ?d" by (rule singleSpaced_dropWhile)
  ultimately show ?thesis using singleSpaced_append [of "trim s"] by metis
qed

lemma singleSpaced_normalize: "singleSpaced (normalizeWs t)"
  by (simp add: normalizeWs_def singleSpaced_trim singleSpaced_collapse)

lemma normalize_result: "normalizeWs t = [] \<or> tight (normalizeWs t)"
  by (simp add: normalizeWs_def trim_result)

lemma inkOf_normalize: "inkOf (normalizeWs t) = inkOf t"
  by (simp add: normalizeWs_def inkOf_trim inkOf_collapse)

lemma normalize_id: "singleSpaced s \<Longrightarrow> tight s \<Longrightarrow> normalizeWs s = s"
  by (simp add: normalizeWs_def collapse_id trim_tight)

lemma normalize_blank: "\<forall>c\<in>set t. is_space c \<Longrightarrow> normalizeWs t = []"
proof -
  assume "\<forall>c\<in>set t. is_space c"
  then have "inkOf t = []" by (simp add: inkOf_def)
  then have "inkOf (normalizeWs t) = []" by (simp add: inkOf_normalize)
  then have "\<forall>c\<in>set (normalizeWs t). is_space c"
    by (simp add: inkOf_def filter_empty_conv)
  then have "trim (normalizeWs t) = []" by (simp add: trim_eq_Nil_iff)
  moreover have "trim (normalizeWs t) = normalizeWs t"
    using normalize_result [of t] by (auto simp: trim_tight)
  ultimately show ?thesis by simp
qed

subsection \<open>split\<close>

lemma jsSplit_not_Nil [simp]: "jsSplit lb prev acc s \<noteq> []"
  by (induction lb prev acc s rule: jsSplit.induct) auto

lemma inkOf_Nil [simp]: "inkOf [] = []"
  by (simp add: inkOf_def)

lemma inkOf_append [simp]: "inkOf (a @ b) = inkOf a @ inkOf b"
  by (simp add: inkOf_def)

lemma inkOf_jsSplit: "inkOf (concat (jsSplit lb prev acc s)) = inkOf (acc @ s)"
proof (induction lb prev acc s rule: jsSplit.induct)
  case (1 lb prev acc) show ?case by simp
next
  case (2 lb prev acc c cs)
  show ?case
  proof (cases "is_space c \<and> lb prev")
    case True
    with 2 have "inkOf (concat (jsSplit lb (Some (last (c # takeWhile is_space cs))) [] (dropWhile is_space cs)))
                  = inkOf (dropWhile is_space cs)" by simp
    with True show ?thesis by (simp add: inkOf_dropWhile) (simp add: inkOf_def)
  next
    case False
    with 2 have "inkOf (concat (jsSplit lb (Some c) (acc @ [c]) cs)) = inkOf ((acc @ [c]) @ cs)" by simp
    moreover from False have "jsSplit lb prev acc (c # cs) = jsSplit lb (Some c) (acc @ [c]) cs"
      by auto
    ultimately show ?thesis by simp
  qed
qed

lemma joinSp_Cons: "ys \<noteq> [] \<Longrightarrow> joinSp (x # ys) = x @ [SP] @ joinSp ys"
  by (cases ys) simp_all

lemma joinSp_jsSplit: "singleSpaced s \<Longrightarrow> joinSp (jsSplit lb prev acc s) = acc @ s"
proof (induction lb prev acc s rule: jsSplit.induct)
  case (1 lb prev acc) show ?case by simp
next
  case (2 lb prev acc c cs)
  show ?case
  proof (cases "is_space c \<and> lb prev")
    case True
    with "2.prems" have c: "c = SP" and nx: "cs = [] \<or> \<not> is_space (hd cs)" and ss: "singleSpaced cs"
      by simp_all
    from nx have d: "dropWhile is_space cs = cs" by (cases cs) auto
    with True ss "2.IH"(1) have "joinSp (jsSplit lb (Some (last (c # takeWhile is_space cs))) [] cs) = cs"
      by simp
    with True c d show ?thesis by (simp add: joinSp_Cons)
  next
    case False
    from "2.prems" have "singleSpaced cs" by simp
    with False "2.IH"(2) have "joinSp (jsSplit lb (Some c) (acc @ [c]) cs) = (acc @ [c]) @ cs" by simp
    moreover from False have "jsSplit lb prev acc (c # cs) = jsSplit lb (Some c) (acc @ [c]) cs"
      by auto
    ultimately show ?thesis by simp
  qed
qed

lemma singleSpaced_jsSplit:
  "singleSpaced (acc @ s) \<Longrightarrow> p \<in> set (jsSplit lb prev acc s) \<Longrightarrow> singleSpaced p"
proof (induction lb prev acc s rule: jsSplit.induct)
  case (1 lb prev acc) then show ?case by simp
next
  case (2 lb prev acc c cs)
  show ?case
  proof (cases "is_space c \<and> lb prev")
    case True
    from "2.prems"(1) have a: "singleSpaced acc" and b: "singleSpaced (c # cs)"
      using singleSpaced_append by blast+
    from b have "singleSpaced cs" by simp
    then have "singleSpaced ([] @ dropWhile is_space cs)" by (simp add: singleSpaced_dropWhile)
    with True "2.IH"(1) "2.prems"(2) a show ?thesis by auto
  next
    case False
    with 2 show ?thesis by simp
  qed
qed

lemma tight_jsSplit:
  assumes "acc @ s \<noteq> []" "\<not> is_space (hd (acc @ s))" "\<not> is_space (last (acc @ s))"
    and "acc \<noteq> [] \<longrightarrow> prev = Some (last acc)"
    and "p \<in> set (jsSplit afterTerminator prev acc s)"
  shows "tight p"
  using assms
proof (induction afterTerminator prev acc s rule: jsSplit.induct)
  case (1 prev acc)
  then show ?case by (simp add: tight_def)
next
  case (2 prev acc c cs)
  show ?case
  proof (cases "is_space c \<and> afterTerminator prev")
    case True
    have accne: "acc \<noteq> []"
    proof
      assume "acc = []"
      with "2.prems"(2) True show False by simp
    qed
    with "2.prems"(4) True have "\<not> is_space (last acc)"
      by (simp add: terminator_not_space)
    moreover from accne "2.prems"(2) have "\<not> is_space (hd acc)" by simp
    ultimately have ta: "tight acc" using accne by (simp add: tight_def)
    let ?d = "dropWhile is_space cs"
    from "2.prems"(3) True have csne: "cs \<noteq> []" by auto
    with "2.prems"(3) have lastcs: "\<not> is_space (last cs)" by simp
    with csne have nd: "?d \<noteq> []" by (metis dropWhile_eq_Nil_conv last_in_set)
    then have hdd: "\<not> is_space (hd ?d)" by (rule hd_dropWhile)
    from csne lastcs have "last ?d = last cs" by (metis dropWhile_last last_in_set)
    with lastcs have lastd: "\<not> is_space (last ?d)" by simp
    show ?thesis
    proof (cases "p = acc")
      case True with ta show ?thesis by simp
    next
      case False
      with "2.prems"(5) True
      have "p \<in> set (jsSplit afterTerminator (Some (last (c # takeWhile is_space cs))) [] ?d)"
        by simp
      with "2.hyps"(1) [OF True] nd hdd lastd show ?thesis by simp
    qed
  next
    case False
    with "2.prems"(5) have "p \<in> set (jsSplit afterTerminator (Some c) (acc @ [c]) cs)" by auto
    with "2.hyps"(2) [OF False] "2.prems"(1,2,3) show ?thesis by simp
  qed
qed

lemma sentences_tight:
  "normalizeWs t \<noteq> [] \<Longrightarrow> p \<in> set (splitSentences (normalizeWs t)) \<Longrightarrow> tight p \<and> singleSpaced p"
proof -
  assume ne: "normalizeWs t \<noteq> []" and p: "p \<in> set (splitSentences (normalizeWs t))"
  from ne normalize_result [of t] have "tight (normalizeWs t)" by simp
  then have "tight p"
    using p tight_jsSplit [of "[]" "normalizeWs t" None p]
    by (simp add: tight_def splitSentences_def)
  moreover have "singleSpaced p"
    using p singleSpaced_jsSplit [of "[]" "normalizeWs t" p afterTerminator None]
    by (simp add: splitSentences_def singleSpaced_normalize)
  ultimately show ?thesis by simp
qed

subsection \<open>hardSplit\<close>

declare hardSplit.simps [simp del]

lemma hardSplit_prefix: "hardSplit s i (pre @ out) = pre @ hardSplit s i out"
proof (induction s i out arbitrary: pre rule: hardSplit.induct)
  case (1 s i out)
  show ?case
  proof (cases "i < length s")
    case True
    with 1 have "hardSplit s (i + MAX_CHUNK_LEN) (pre @ (out @ [take MAX_CHUNK_LEN (drop i s)]))
                 = pre @ hardSplit s (i + MAX_CHUNK_LEN) (out @ [take MAX_CHUNK_LEN (drop i s)])"
      by simp
    with True show ?thesis
      by (simp add: hardSplit.simps [of s i "pre @ out"] hardSplit.simps [of s i out])
  next
    case False
    then show ?thesis
      by (simp add: hardSplit.simps [of s i "pre @ out"] hardSplit.simps [of s i out])
  qed
qed

lemma hardSplit_acc: "hardSplit s i out = out @ hardSplit s i []"
  using hardSplit_prefix [of s i out "[]"] by simp

lemma hardSplit_step:
  "i < length s \<Longrightarrow> hardSplit s i [] = take MAX_CHUNK_LEN (drop i s) # hardSplit s (i + MAX_CHUNK_LEN) []"
  using hardSplit_acc [of s "i + MAX_CHUNK_LEN" "[take MAX_CHUNK_LEN (drop i s)]"]
  by (simp add: hardSplit.simps [of s i "[]"])

lemma hardSplit_done: "\<not> i < length s \<Longrightarrow> hardSplit s i [] = []"
  by (simp add: hardSplit.simps [of s i "[]"])

lemma concat_hardSplit: "concat (hardSplit s i []) = drop i s"
proof (induction "length s - i" arbitrary: i rule: less_induct)
  case less
  show ?case
  proof (cases "i < length s")
    case True
    then have "length s - (i + MAX_CHUNK_LEN) < length s - i"
      by (simp add: MAX_CHUNK_LEN_def)
    then have "concat (hardSplit s (i + MAX_CHUNK_LEN) []) = drop (i + MAX_CHUNK_LEN) s"
      by (rule less)
    moreover have "take MAX_CHUNK_LEN (drop i s) @ drop (i + MAX_CHUNK_LEN) s = drop i s"
      using append_take_drop_id [of MAX_CHUNK_LEN "drop i s"] by (simp add: add.commute)
    ultimately show ?thesis using True by (simp add: hardSplit_step)
  next
    case False
    then show ?thesis by (simp add: hardSplit_done)
  qed
qed

lemma ceil_step: "0 < (k::nat) \<Longrightarrow> (k + 599) div 600 = Suc ((k - 600 + 599) div 600)"
proof (cases "600 \<le> k")
  case True
  then have "k + 599 = (k - 600 + 599) + 600" by simp
  then have "(k + 599) div 600 = ((k - 600 + 599) + 600) div 600" by simp
  also have "\<dots> = Suc ((k - 600 + 599) div 600)" by simp
  finally show ?thesis .
next
  case False
  assume "0 < k"
  with False have "(k + 599) div 600 = 1" by (intro div_nat_eqI) simp_all
  with False show ?thesis by simp
qed

lemma length_hardSplit: "length (hardSplit s i []) = (length s - i + 599) div 600"
proof (induction "length s - i" arbitrary: i rule: less_induct)
  case less
  show ?case
  proof (cases "i < length s")
    case True
    then have "length s - (i + MAX_CHUNK_LEN) < length s - i"
      by (simp add: MAX_CHUNK_LEN_def)
    then have "length (hardSplit s (i + MAX_CHUNK_LEN) []) = (length s - (i + MAX_CHUNK_LEN) + 599) div 600"
      by (rule less)
    moreover have "length s - (i + MAX_CHUNK_LEN) = length s - i - 600"
      by (simp add: MAX_CHUNK_LEN_def)
    moreover from True have "0 < length s - i" by simp
    ultimately show ?thesis
      using True ceil_step [of "length s - i"] by (simp add: hardSplit_step)
  next
    case False
    then show ?thesis by (simp add: hardSplit_done)
  qed
qed

lemma take_not_blank:
  assumes "singleSpaced d" "d \<noteq> []" "\<not> is_space (last d)" "2 \<le> n"
  shows "\<not> blank (take n d)"
proof (cases d)
  case Nil with assms show ?thesis by simp
next
  case (Cons x r)
  show ?thesis
  proof (cases r)
    case Nil
    with Cons assms have "take n d = [x]" "\<not> is_space x" by (auto simp: take_Cons')
    then show ?thesis by (simp add: blank_def trim_eq_Nil_iff)
  next
    case (Cons y r')
    with \<open>d = x # r\<close> assms obtain m where "take n d = x # y # take m r'"
      by (cases n) (auto simp: take_Cons')
    moreover from Cons \<open>d = x # r\<close> assms(1) have "\<not> is_space x \<or> \<not> is_space y" by auto
    ultimately show ?thesis by (auto simp: blank_def trim_eq_Nil_iff)
  qed
qed

lemma hardSplit_slices:
  assumes "c \<in> set (hardSplit s i [])"
  shows "c \<noteq> [] \<and> length c \<le> MAX_CHUNK_LEN \<and>
         (singleSpaced s \<longrightarrow> \<not> is_space (last s) \<longrightarrow> \<not> blank c)"
  using assms
proof (induction "length s - i" arbitrary: i rule: less_induct)
  case less
  show ?case
  proof (cases "i < length s")
    case True
    then have dec: "length s - (i + MAX_CHUNK_LEN) < length s - i"
      by (simp add: MAX_CHUNK_LEN_def)
    show ?thesis
    proof (cases "c = take MAX_CHUNK_LEN (drop i s)")
      case c: True
      from True have dne: "drop i s \<noteq> []" by simp
      have "\<not> blank c" if ss: "singleSpaced s" and l: "\<not> is_space (last s)"
      proof -
        from ss have "singleSpaced (drop i s)"
          using singleSpaced_append [of "take i s" "drop i s"] by simp
        moreover from True l have "\<not> is_space (last (drop i s))" by simp
        ultimately show ?thesis
          unfolding c using dne by (intro take_not_blank) (simp_all add: MAX_CHUNK_LEN_def)
      qed
      with c dne show ?thesis by (simp add: MAX_CHUNK_LEN_def)
    next
      case False
      with less.prems True have "c \<in> set (hardSplit s (i + MAX_CHUNK_LEN) [])"
        by (simp add: hardSplit_step)
      with dec show ?thesis by (rule less.hyps)
    qed
  next
    case False
    with less.prems show ?thesis by (simp add: hardSplit_done)
  qed
qed

subsection \<open>The loop\<close>

lemma tight_not_blank: "tight s \<Longrightarrow> \<not> blank s"
  by (simp add: blank_def trim_tight) (simp add: tight_def)

lemma tight_join: "tight a \<Longrightarrow> tight b \<Longrightarrow> tight (a @ [SP] @ b)"
  by (simp add: tight_def)

lemma chunkStep_tight:
  assumes "tight s" "buf = [] \<or> tight buf"
  shows "chunkStep (out, buf) s =
     (if length ((if buf \<noteq> [] then buf @ [SP] else []) @ s) > MAX_CHUNK_LEN then
        (if length s > MAX_CHUNK_LEN
         then ((if buf \<noteq> [] then out @ [buf] else out) @ hardSplit s 0 [], [])
         else ((if buf \<noteq> [] then out @ [buf] else out), s))
      else (out, (if buf \<noteq> [] then buf @ [SP] else []) @ s))"
proof (cases "buf = []")
  case True
  with assms(1) have "trim (buf @ [SP] @ s) = s" by (simp add: trim_tight)
  with True show ?thesis
    using hardSplit_acc [of s 0 out] by (simp add: chunkStep_def)
next
  case False
  with assms have tb: "tight buf" by simp
  with assms(1) have "trim (buf @ [SP] @ s) = buf @ [SP] @ s"
    by (intro trim_tight tight_join)
  moreover from tb have "trim buf = buf" by (rule trim_tight)
  ultimately show ?thesis
    using False hardSplit_acc [of s 0 "out @ [buf]"] by (simp add: chunkStep_def)
qed

lemma loopInv_step:
  assumes "loopInv ob" "tight s" "singleSpaced s"
  shows "loopInv (chunkStep ob s)"
proof -
  obtain out buf where ob: "ob = (out, buf)" by (cases ob)
  from assms(1) ob have out: "\<forall>c\<in>set out. goodChunk c"
    and buf: "buf = [] \<or> (tight buf \<and> length buf \<le> MAX_CHUNK_LEN)"
    by (simp_all add: loopInv_def)
  from buf have gb: "buf \<noteq> [] \<Longrightarrow> goodChunk buf"
    by (auto simp: goodChunk_def tight_not_blank)
  from assms(2) have sne: "s \<noteq> []" and ls: "\<not> is_space (last s)" by (simp_all add: tight_def)
  have slices: "\<forall>c\<in>set (hardSplit s 0 []). goodChunk c"
    using hardSplit_slices [of _ s 0] assms(3) ls by (auto simp: goodChunk_def)
  from buf have b': "buf = [] \<or> tight buf" by auto
  have tj: "tight ((if buf \<noteq> [] then buf @ [SP] else []) @ s)"
    using b' assms(2) tight_join [of buf s] by auto
  show ?thesis
    unfolding ob chunkStep_tight [OF assms(2) b']
    using out gb slices tj assms(2) by (auto simp: loopInv_def)
qed

lemma loopInv_foldl:
  "loopInv ob \<Longrightarrow> \<forall>s\<in>set ss. tight s \<and> singleSpaced s \<Longrightarrow> loopInv (foldl chunkStep ob ss)"
  by (induction ss arbitrary: ob) (simp_all add: loopInv_step)

lemma loopInv_finish: "loopInv ob \<Longrightarrow> c \<in> set (finish ob) \<Longrightarrow> goodChunk c"
proof -
  assume inv: "loopInv ob" and c: "c \<in> set (finish ob)"
  obtain out buf where ob: "ob = (out, buf)" by (cases ob)
  show ?thesis
  proof (cases "buf = []")
    case True
    with inv c ob show ?thesis by (simp add: loopInv_def finish_def)
  next
    case False
    with inv ob have t: "tight buf" and l: "length buf \<le> MAX_CHUNK_LEN"
      by (simp_all add: loopInv_def)
    then have "goodChunk buf" by (simp add: goodChunk_def tight_not_blank False)
    with inv c ob False t show ?thesis by (auto simp: loopInv_def finish_def trim_tight)
  qed
qed

lemma buildChunks_good: "c \<in> set (buildChunks t) \<Longrightarrow> goodChunk c"
proof -
  assume c: "c \<in> set (buildChunks t)"
  then have ne: "normalizeWs t \<noteq> []" by (auto simp: buildChunks_def Let_def)
  have "loopInv ([], [])" by (simp add: loopInv_def)
  then have "loopInv (foldl chunkStep ([], []) (splitSentences (normalizeWs t)))"
    using sentences_tight [OF ne] by (intro loopInv_foldl) auto
  with c ne show ?thesis by (auto simp: buildChunks_def Let_def intro: loopInv_finish)
qed

subsection \<open>Chunks of short sentences\<close>

lemma tightInv_step:
  assumes "tightInv ob" "tight s" "length s \<le> MAX_CHUNK_LEN"
  shows "tightInv (chunkStep ob s) \<and> pending (chunkStep ob s) \<noteq> [] \<and>
         joinSp (pending (chunkStep ob s)) = joinSp (pending ob @ [s])"
proof -
  obtain out buf where ob: "ob = (out, buf)" by (cases ob)
  from assms(1) ob have out: "\<forall>c\<in>set out. tight c" and b': "buf = [] \<or> tight buf"
    by (simp_all add: tightInv_def)
  from assms(2) have sne: "s \<noteq> []" by (simp add: tight_def)
  have tj: "tight ((if buf \<noteq> [] then buf @ [SP] else []) @ s)"
    using b' assms(2) tight_join [of buf s] by auto
  have j: "joinSp (out @ [buf @ SP # s]) = joinSp (out @ [buf, s])" for out
    by (induction out rule: joinSp.induct) simp_all
  show ?thesis
    unfolding ob chunkStep_tight [OF assms(2) b']
    using out b' tj assms(2,3) sne j by (auto simp: tightInv_def pending_def)
qed

lemma joinSp_append:
  "xs \<noteq> [] \<Longrightarrow> ys \<noteq> [] \<Longrightarrow> joinSp (xs @ ys) = joinSp xs @ [SP] @ joinSp ys"
  by (induction xs rule: joinSp.induct) (simp_all add: joinSp_Cons)

lemma joinSp_cong:
  "xs \<noteq> [] \<Longrightarrow> xs' \<noteq> [] \<Longrightarrow> joinSp xs = joinSp xs' \<Longrightarrow> joinSp (xs @ ys) = joinSp (xs' @ ys)"
  by (cases "ys = []") (simp_all add: joinSp_append)

lemma tightInv_foldl:
  assumes "tightInv ob" "\<forall>s\<in>set ss. tight s \<and> length s \<le> MAX_CHUNK_LEN"
  shows "tightInv (foldl chunkStep ob ss) \<and>
         joinSp (pending (foldl chunkStep ob ss)) = joinSp (pending ob @ ss)"
  using assms
proof (induction ss arbitrary: ob)
  case Nil
  then show ?case by simp
next
  case (Cons s ss)
  from Cons.prems have s: "tight s" "length s \<le> MAX_CHUNK_LEN" by simp_all
  note st = tightInv_step [OF Cons.prems(1) s]
  from st Cons.prems(2)
  have ih: "tightInv (foldl chunkStep (chunkStep ob s) ss) \<and>
            joinSp (pending (foldl chunkStep (chunkStep ob s) ss)) = joinSp (pending (chunkStep ob s) @ ss)"
    by (intro Cons.IH) simp_all
  have "joinSp (pending (chunkStep ob s) @ ss) = joinSp ((pending ob @ [s]) @ ss)"
    using st by (intro joinSp_cong) simp_all
  with ih show ?case by simp
qed

lemma finish_tight: "tightInv ob \<Longrightarrow> finish ob = pending ob"
  by (cases ob) (auto simp: tightInv_def finish_def pending_def trim_tight)

lemma buildChunks_short:
  assumes "\<forall>s\<in>set (splitSentences (normalizeWs t)). length s \<le> MAX_CHUNK_LEN"
  shows "joinSp (buildChunks t) = normalizeWs t \<and> (\<forall>c\<in>set (buildChunks t). tight c)"
proof (cases "normalizeWs t = []")
  case True
  then show ?thesis by (simp add: buildChunks_def Let_def)
next
  case False
  let ?r = "foldl chunkStep ([], []) (splitSentences (normalizeWs t))"
  have "tightInv ([], [])" by (simp add: tightInv_def)
  then have r: "tightInv ?r \<and> joinSp (pending ?r) = joinSp (pending ([], []) @ splitSentences (normalizeWs t))"
    using sentences_tight [OF False] assms by (intro tightInv_foldl) auto
  then have fin: "finish ?r = pending ?r" by (simp add: finish_tight)
  have "joinSp (splitSentences (normalizeWs t)) = normalizeWs t"
    using joinSp_jsSplit [of "normalizeWs t" afterTerminator None "[]"]
    by (simp add: splitSentences_def singleSpaced_normalize)
  moreover have "pending ([], []) = []" by (simp add: pending_def)
  ultimately have "joinSp (buildChunks t) = normalizeWs t"
    using r fin False by (simp add: buildChunks_def Let_def)
  moreover from r have "\<forall>c\<in>set (pending ?r). tight c"
    by (auto simp: tightInv_def pending_def)
  with fin False have "\<forall>c\<in>set (buildChunks t). tight c"
    by (simp add: buildChunks_def Let_def)
  ultimately show ?thesis by simp
qed

subsection \<open>Ink\<close>

lemma inkOf_SP [simp]: "inkOf [SP] = []"
  by (simp add: inkOf_def)

lemma inkOf_concat_append: "inkOf (concat (a @ b)) = inkOf (concat a) @ inkOf (concat b)"
  by simp

lemma ink_step: "inkOf (concat (pending (chunkStep ob s))) = inkOf (concat (pending ob)) @ inkOf s"
proof -
  obtain out buf where ob: "ob = (out, buf)" by (cases ob)
  have h: "concat (hardSplit s 0 out1) = concat out1 @ s" for out1
    using hardSplit_acc [of s 0 out1] by (simp add: concat_hardSplit)
  show ?thesis
    unfolding ob by (simp add: chunkStep_def pending_def Let_def h inkOf_trim)
qed

lemma ink_foldl:
  "inkOf (concat (pending (foldl chunkStep ob ss))) = inkOf (concat (pending ob)) @ inkOf (concat ss)"
  by (induction ss arbitrary: ob) (simp_all add: ink_step)

lemma ink_finish: "inkOf (concat (finish ob)) = inkOf (concat (pending ob))"
  by (cases ob) (simp add: finish_def pending_def inkOf_trim)

lemma ink_buildChunks: "inkOf (concat (buildChunks t)) = inkOf t"
proof (cases "normalizeWs t = []")
  case True
  have "inkOf t = inkOf (normalizeWs t)" by (simp add: inkOf_normalize)
  with True show ?thesis by (simp add: buildChunks_def Let_def)
next
  case False
  have "inkOf (concat (splitSentences (normalizeWs t))) = inkOf (normalizeWs t)"
    using inkOf_jsSplit [of afterTerminator None "[]" "normalizeWs t"] by (simp add: splitSentences_def)
  moreover have "pending ([], []) = []" by (simp add: pending_def)
  ultimately show ?thesis
    using False by (simp add: buildChunks_def Let_def ink_finish ink_foldl inkOf_normalize)
qed

subsection \<open>Concrete texts\<close>

lemma no_space_singleSpaced: "\<forall>c\<in>set s. \<not> is_space c \<Longrightarrow> singleSpaced s"
  by (induction s) simp_all

lemma singleSpaced_replicate_append:
  "\<not> is_space a \<Longrightarrow> singleSpaced (replicate n a @ t) = singleSpaced t"
  by (induction n) simp_all

lemma jsSplit_replicate:
  "\<not> is_space a \<Longrightarrow> 0 < n \<Longrightarrow>
     jsSplit lb prev acc (replicate n a @ t) = jsSplit lb (Some a) (acc @ replicate n a) t"
proof (induction n arbitrary: prev acc)
  case 0 then show ?case by simp
next
  case (Suc n)
  show ?case
  proof (cases "n = 0")
    case True
    with Suc.prems show ?thesis by simp
  next
    case False
    with Suc have "jsSplit lb (Some a) (acc @ [a]) (replicate n a @ t)
                   = jsSplit lb (Some a) ((acc @ [a]) @ replicate n a) t" by simp
    with Suc.prems show ?thesis by (simp add: replicate_append_same)
  qed
qed

lemma jsSplit_no_space: "\<forall>c\<in>set s. \<not> is_space c \<Longrightarrow> jsSplit lb prev acc s = [acc @ s]"
  by (induction s arbitrary: prev acc) simp_all

lemma letters [simp]: "\<not> is_space 0x61" "\<not> is_space 0x62" "\<not> is_space 0x2E"
  by (simp_all add: is_space_def)

lemma buildChunks_single:
  assumes "normalizeWs s = s" "splitSentences s = [s]" "length s > MAX_CHUNK_LEN"
  shows "buildChunks s = hardSplit s 0 []"
proof -
  from assms(3) have ne: "s \<noteq> []" by auto
  with assms(1) normalize_result [of s] have t: "tight s" by simp
  have "chunkStep ([], []) s = (hardSplit s 0 [], [])"
    using assms(3) by (simp add: chunkStep_tight [OF t])
  with ne assms(1,2) show ?thesis by (simp add: buildChunks_def Let_def finish_def)
qed

lemma hardSplit_1500:
  "length s = 1500 \<Longrightarrow> hardSplit s 0 [] = [take 600 s, take 600 (drop 600 s), drop 1200 s]"
  by (simp add: hardSplit_step hardSplit_done MAX_CHUNK_LEN_def)

lemma long1500_facts:
  "normalizeWs long1500 = long1500" "splitSentences long1500 = [long1500]" "length long1500 = 1500"
proof -
  have ns: "\<forall>c\<in>set long1500. \<not> is_space c" by (simp add: long1500_def)
  then have "singleSpaced long1500" by (rule no_space_singleSpaced)
  moreover have "tight long1500" by (simp add: tight_def long1500_def)
  ultimately show "normalizeWs long1500 = long1500" by (rule normalize_id)
  from ns show "splitSentences long1500 = [long1500]"
    by (simp add: splitSentences_def jsSplit_no_space)
  show "length long1500 = 1500" by (simp add: long1500_def)
qed

lemma spaced602_facts:
  "normalizeWs spaced602 = spaced602" "splitSentences spaced602 = [spaced602]" "length spaced602 = 602"
proof -
  have "singleSpaced spaced602"
    by (simp add: spaced602_def singleSpaced_replicate_append)
  moreover have "tight spaced602" by (simp add: tight_def spaced602_def)
  ultimately show "normalizeWs spaced602 = spaced602" by (rule normalize_id)
  show "splitSentences spaced602 = [spaced602]"
    by (simp add: splitSentences_def spaced602_def jsSplit_replicate afterTerminator_def)
  show "length spaced602 = 602" by (simp add: spaced602_def)
qed

lemma buildChunks_spaced602:
  "buildChunks spaced602 = [replicate 599 0x61 @ [SP], [0x62, 0x62]]"
proof -
  have "buildChunks spaced602 = hardSplit spaced602 0 []"
    by (rule buildChunks_single) (simp_all add: spaced602_facts MAX_CHUNK_LEN_def)
  also have "\<dots> = [take 600 spaced602, take 600 (drop 600 spaced602)]"
    by (simp add: hardSplit_step hardSplit_done MAX_CHUNK_LEN_def spaced602_facts)
  also have "\<dots> = [replicate 599 0x61 @ [SP], [0x62, 0x62]]"
    by (simp add: spaced602_def)
  finally show ?thesis .
qed

lemma letter_c [simp]: "\<not> is_space 0x63"
  by (simp add: is_space_def)

lemma dropWhile_replicate_append:
  "\<not> P a \<Longrightarrow> 0 < n \<Longrightarrow> dropWhile P (replicate n a @ t) = replicate n a @ t"
  by (cases n) simp_all

lemma takeWhile_replicate_append:
  "\<not> P a \<Longrightarrow> 0 < n \<Longrightarrow> takeWhile P (replicate n a @ t) = []"
  by (cases n) simp_all

lemma twoSentences_facts:
  "normalizeWs twoSentences = twoSentences"
  "splitSentences twoSentences = [replicate 601 0x61 @ [0x2E], [0x62]]"
proof -
  have "singleSpaced twoSentences"
    by (simp add: twoSentences_def js_def singleSpaced_replicate_append is_space_def SP_def)
  moreover have "tight twoSentences" by (simp add: tight_def twoSentences_def js_def)
  ultimately show "normalizeWs twoSentences = twoSentences" by (rule normalize_id)
  show "splitSentences twoSentences = [replicate 601 0x61 @ [0x2E], [0x62]]"
    by (simp add: splitSentences_def twoSentences_def js_def jsSplit_replicate afterTerminator_def
        is_space_def)
qed

lemma buildChunks_twoSentences:
  "buildChunks twoSentences = [replicate 600 0x61, [0x61, 0x2E], [0x62]]"
proof -
  let ?s1 = "replicate 601 0x61 @ [0x2E :: jschar]"
  have t1: "tight ?s1" and t2: "tight [0x62 :: jschar]" by (simp_all add: tight_def)
  have "hardSplit ?s1 0 [] = [take 600 ?s1, take 600 (drop 600 ?s1)]"
    by (simp add: hardSplit_step hardSplit_done MAX_CHUNK_LEN_def)
  also have "\<dots> = [replicate 600 0x61, [0x61, 0x2E]]" by simp
  finally have h: "hardSplit ?s1 0 [] = [replicate 600 0x61, [0x61, 0x2E]]" .
  have 1: "chunkStep ([], []) ?s1 = ([replicate 600 0x61, [0x61, 0x2E]], [])"
    by (simp add: chunkStep_tight [OF t1] h MAX_CHUNK_LEN_def)
  have 2: "chunkStep ([replicate 600 0x61, [0x61, 0x2E]], []) [0x62]
           = ([replicate 600 0x61, [0x61, 0x2E]], [0x62])"
    by (simp add: chunkStep_tight [OF t2] MAX_CHUNK_LEN_def)
  have "twoSentences \<noteq> []" by (simp add: twoSentences_def)
  then show ?thesis
    by (simp add: buildChunks_def Let_def twoSentences_facts 1 2 finish_def trim_tight [OF t2])
qed

lemma sent_tight: "tight sentA" "tight sentB" "tight sentC"
  by (simp_all add: tight_def sentA_def sentB_def sentC_def)

lemma sent_length: "length sentA = 600" "length sentB = 600" "length sentC = 600"
  by (simp_all add: sentA_def sentB_def sentC_def)

lemma story3_facts:
  "normalizeWs story3 = story3" "splitSentences story3 = [sentA, sentB, sentC]" "story3 \<noteq> []"
proof -
  have "singleSpaced story3"
    by (simp add: story3_def sentA_def sentB_def sentC_def singleSpaced_replicate_append)
  moreover have "tight story3" by (simp add: tight_def story3_def sentA_def sentB_def sentC_def)
  ultimately show "normalizeWs story3 = story3" by (rule normalize_id)
  show "splitSentences story3 = [sentA, sentB, sentC]"
    by (simp add: splitSentences_def story3_def sentA_def sentB_def sentC_def jsSplit_replicate
        afterTerminator_def dropWhile_replicate_append takeWhile_replicate_append)
  show "story3 \<noteq> []" by (simp add: story3_def)
qed

lemma buildChunks_story3: "buildChunks story3 = [sentA, sentB, sentC]"
proof -
  have 1: "chunkStep ([], []) sentA = ([], sentA)"
    by (simp add: chunkStep_tight [OF sent_tight(1)] MAX_CHUNK_LEN_def sent_length)
  have 2: "chunkStep ([], sentA) sentB = ([sentA], sentB)"
    using sent_tight(1) by (simp add: chunkStep_tight [OF sent_tight(2)] MAX_CHUNK_LEN_def sent_length tight_def)
  have 3: "chunkStep ([sentA], sentB) sentC = ([sentA, sentB], sentC)"
    using sent_tight(2) by (simp add: chunkStep_tight [OF sent_tight(3)] MAX_CHUNK_LEN_def sent_length tight_def)
  have "sentC \<noteq> []" using sent_tight(3) by (simp add: tight_def)
  then show ?thesis
    by (simp add: buildChunks_def Let_def story3_facts 1 2 3 finish_def trim_tight [OF sent_tight(3)])
qed

lemma story1_sentences: "splitSentences (normalizeWs story1) = [js ''One.'', js ''Two.'']"
  unfolding story1_def by code_simp

lemma buildChunks_story1: "buildChunks story1 = [story1]"
  unfolding story1_def by code_simp

lemma story1_normal: "normalizeWs story1 = story1"
  unfolding story1_def by code_simp

text \<open>
  C6: every chunk that \<^verbatim>\<open>buildChunks\<close> produces has at most \<^verbatim>\<open>MAX_CHUNK_LEN\<close> = 600
  code units, for every input. A text that is one sentence longer than the bound (it is
  its own normal form and has no sentence boundary) is cut into \<open>\<lceil>length / 600\<rceil>\<close> slices;
  one of 1500 code units gives the three slices at 0, 600 and 1200.
\<close>

theorem chunk_length_bound:
  "(\<forall>c\<in>set (buildChunks t). length c \<le> MAX_CHUNK_LEN) \<and>
   (normalizeWs s = s \<and> splitSentences s = [s] \<and> MAX_CHUNK_LEN < length s \<longrightarrow>
      length (buildChunks s) = (length s + 599) div 600 \<and>
      (length s = 1500 \<longrightarrow> buildChunks s = [take 600 s, take 600 (drop 600 s), drop 1200 s]))"
proof -
  have "\<forall>c\<in>set (buildChunks t). length c \<le> MAX_CHUNK_LEN"
    using buildChunks_good [of _ t] by (simp add: goodChunk_def)
  moreover have "length (buildChunks s) = (length s + 599) div 600 \<and>
      (length s = 1500 \<longrightarrow> buildChunks s = [take 600 s, take 600 (drop 600 s), drop 1200 s])"
    if "normalizeWs s = s" "splitSentences s = [s]" "MAX_CHUNK_LEN < length s"
    using buildChunks_single [OF that] by (simp add: length_hardSplit hardSplit_1500)
  ultimately show ?thesis by blast
qed

text \<open>The bound on the short story, and the three slices of 1500 letters.\<close>

theorem chunk_length_bound_witness:
  "length story1 \<le> MAX_CHUNK_LEN \<and>
   normalizeWs long1500 = long1500 \<and> splitSentences long1500 = [long1500] \<and>
   MAX_CHUNK_LEN < length long1500 \<and> length long1500 = 1500 \<and>
   length (buildChunks long1500) = 3 \<and>
   buildChunks long1500 = [replicate 600 0x61, replicate 600 0x61, replicate 300 0x61]"
proof -
  note t = chunk_length_bound [of story1 long1500]
  have big: "MAX_CHUNK_LEN < length long1500"
    by (simp add: long1500_facts MAX_CHUNK_LEN_def)
  from t have "length story1 \<le> MAX_CHUNK_LEN" by (simp add: buildChunks_story1)
  moreover from t big have "buildChunks long1500 = [take 600 long1500, take 600 (drop 600 long1500), drop 1200 long1500]"
    by (simp add: long1500_facts)
  then have "buildChunks long1500 = [replicate 600 0x61, replicate 600 0x61, replicate 300 0x61]"
    by (simp add: long1500_def)
  ultimately show ?thesis using big by (simp add: long1500_facts)
qed

text \<open>
  C9 as stated fails: a sentence longer than the bound is cut every 600 code units
  wherever that falls, and the slices are pushed as they are. The first chunk of
  \<open>spaced602\<close> ends with the space.
\<close>

theorem chunks_trimmed_counterexample:
  "buildChunks spaced602 = [replicate 599 0x61 @ [SP], [0x62, 0x62]] \<and>
   \<not> (\<forall>c\<in>set (buildChunks spaced602). c \<noteq> [] \<and> \<not> is_space (hd c) \<and> \<not> is_space (last c))"
  by (simp add: buildChunks_spaced602)

text \<open>
  C9, amended: for every input the chunks are not empty and none is made of whitespace
  only; when no sentence of the normalized text is longer than 600 code units, no chunk
  starts or ends with whitespace; an input that is empty or whitespace only gives no
  chunk, and any other input gives at least one.
\<close>

theorem chunks_not_blank:
  "(\<forall>c\<in>set (buildChunks t). c \<noteq> [] \<and> \<not> blank c) \<and>
   ((\<forall>s\<in>set (splitSentences (normalizeWs t)). length s \<le> MAX_CHUNK_LEN) \<longrightarrow>
      (\<forall>c\<in>set (buildChunks t). c \<noteq> [] \<and> \<not> is_space (hd c) \<and> \<not> is_space (last c))) \<and>
   ((\<forall>c\<in>set t. is_space c) \<longrightarrow> buildChunks t = []) \<and>
   ((\<exists>c\<in>set t. \<not> is_space c) \<longrightarrow> buildChunks t \<noteq> [])"
proof -
  have a: "\<forall>c\<in>set (buildChunks t). c \<noteq> [] \<and> \<not> blank c"
    using buildChunks_good [of _ t] by (simp add: goodChunk_def)
  have b: "\<forall>c\<in>set (buildChunks t). c \<noteq> [] \<and> \<not> is_space (hd c) \<and> \<not> is_space (last c)"
    if "\<forall>s\<in>set (splitSentences (normalizeWs t)). length s \<le> MAX_CHUNK_LEN"
    using buildChunks_short [OF that] by (simp add: tight_def)
  have c: "buildChunks t = []" if "\<forall>c\<in>set t. is_space c"
    using normalize_blank [OF that] by (simp add: buildChunks_def)
  have d: "buildChunks t \<noteq> []" if "\<exists>c\<in>set t. \<not> is_space c"
  proof
    assume "buildChunks t = []"
    then have "inkOf t = []" using ink_buildChunks [of t] by simp
    with that show False by (auto simp: inkOf_def filter_empty_conv)
  qed
  from a b c d show ?thesis by blast
qed

text \<open>The short story is one trimmed chunk; two spaces give no chunk.\<close>

theorem chunks_not_blank_witness:
  "buildChunks story1 = [story1] \<and> story1 \<noteq> [] \<and> \<not> blank story1 \<and>
   \<not> is_space (hd story1) \<and> \<not> is_space (last story1) \<and>
   buildChunks (js ''  '') = []"
proof -
  have short: "\<forall>s\<in>set (splitSentences (normalizeWs story1)). length s \<le> MAX_CHUNK_LEN"
    by (simp add: story1_sentences js_def MAX_CHUNK_LEN_def)
  have ws: "\<forall>c\<in>set (js ''  ''). is_space c"
    by (simp add: js_def is_space_def)
  from chunks_not_blank [of story1] short
  have "story1 \<noteq> [] \<and> \<not> blank story1 \<and> \<not> is_space (hd story1) \<and> \<not> is_space (last story1)"
    by (simp add: buildChunks_story1)
  moreover from chunks_not_blank [of "js ''  ''"] ws have "buildChunks (js ''  '') = []"
    by blast
  ultimately show ?thesis by (simp add: buildChunks_story1)
qed

text \<open>
  C2 as stated fails on \<open>twoSentences\<close>. Its first sentence is cut after 600 code
  units, inside the word. Put together without a separator the chunks lose the space
  between the two sentences; joined with spaces they gain a space inside the word. Either
  way the normalized result is not the normalized source.
\<close>

theorem chunk_roundtrip_counterexample:
  "buildChunks twoSentences = [replicate 600 0x61, [0x61, 0x2E], [0x62]] \<and>
   normalizeWs (concat (buildChunks twoSentences)) \<noteq> normalizeWs twoSentences \<and>
   normalizeWs (joinSp (buildChunks twoSentences)) \<noteq> normalizeWs twoSentences"
proof -
  let ?c = "replicate 600 0x61 @ [0x61, 0x2E, 0x62 :: jschar]"
  let ?j = "replicate 600 0x61 @ [SP, 0x61, 0x2E, SP, 0x62 :: jschar]"
  have "normalizeWs ?c = ?c"
    by (rule normalize_id) (simp_all add: singleSpaced_replicate_append tight_def)
  moreover have "normalizeWs ?j = ?j"
    by (rule normalize_id) (simp_all add: singleSpaced_replicate_append tight_def)
  moreover have "?c \<noteq> twoSentences"
  proof
    assume "?c = twoSentences"
    then have "length ?c = length twoSentences" by (rule arg_cong)
    then show False by (simp add: twoSentences_def js_def)
  qed
  moreover have "?j \<noteq> twoSentences"
  proof
    assume "?j = twoSentences"
    then have "length ?j = length twoSentences" by (rule arg_cong)
    then show False by (simp add: twoSentences_def js_def)
  qed
  ultimately show ?thesis
    by (simp add: buildChunks_twoSentences twoSentences_facts)
qed

text \<open>
  C2, amended: for every input the chunks, put together in order, hold exactly the
  code units of the source that are not whitespace, in the same order; and when no
  sentence of the normalized text is longer than 600 code units, the chunks joined with
  single spaces are the normalized source text.
\<close>

theorem chunk_roundtrip:
  "inkOf (concat (buildChunks t)) = inkOf t \<and>
   ((\<forall>s\<in>set (splitSentences (normalizeWs t)). length s \<le> MAX_CHUNK_LEN) \<longrightarrow>
      joinSp (buildChunks t) = normalizeWs t)"
  using buildChunks_short [of t] by (simp add: ink_buildChunks)

text \<open>The short story comes back from its chunks.\<close>

theorem chunk_roundtrip_witness:
  "inkOf (concat (buildChunks story1)) = js ''One.Two.'' \<and>
   joinSp (buildChunks story1) = js ''One. Two.'' \<and> normalizeWs story1 = js ''One. Two.''"
proof -
  have short: "\<forall>s\<in>set (splitSentences (normalizeWs story1)). length s \<le> MAX_CHUNK_LEN"
    by (simp add: story1_sentences js_def MAX_CHUNK_LEN_def)
  have ink: "inkOf story1 = js ''One.Two.''"
    unfolding story1_def by code_simp
  from chunk_roundtrip [of story1] short ink show ?thesis
    by (simp add: story1_normal) (simp add: story1_def)
qed
section \<open>What a call leaves unchanged\<close>

lemma updateProgress_fields [simp]:
  "sessionId (updateProgress st) = sessionId st"
  "chunks (updateProgress st) = chunks st"
  "currentText (updateProgress st) = currentText st"
  "currentChunkIndex (updateProgress st) = currentChunkIndex st"
  "isPlaying (updateProgress st) = isPlaying st"
  "isPaused (updateProgress st) = isPaused st"
  "engine (updateProgress st) = engine st"
  "overrideFirstChunk (updateProgress st) = overrideFirstChunk st"
  "currentPreferences (updateProgress st) = currentPreferences st"
  "isInitiatingPlayback (updateProgress st) = isInitiatingPlayback st"
  "chunkStartTime (updateProgress st) = chunkStartTime st"
  "chunkStartPrefs (updateProgress st) = chunkStartPrefs st"
  "progressCallback (updateProgress st) = progressCallback st"
  by (simp_all add: updateProgress_def)

lemma speakChunkChain_fields [simp]:
  "sessionId (speakChunkChain e i sid st) = sessionId st"
  "chunks (speakChunkChain e i sid st) = chunks st"
  "currentText (speakChunkChain e i sid st) = currentText st"
  "isInitiatingPlayback (speakChunkChain e i sid st) = isInitiatingPlayback st"
  "currentPreferences (speakChunkChain e i sid st) = currentPreferences st"
  "progressCallback (speakChunkChain e i sid st) = progressCallback st"
  by (simp_all add: speakChunkChain_def sessionOver_def resolvePlayback_def Let_def)

lemma index_speakChunkChain:
  "currentChunkIndex (speakChunkChain e i sid st) =
     (if sid \<noteq> sessionId st then currentChunkIndex st
      else if jsLe (ofNat (length (chunks st))) i then Fin 0 else i)"
  by (simp add: speakChunkChain_def sessionOver_def resolvePlayback_def Let_def)

lemma isPlaying_speakChunkChain:
  "isPlaying (speakChunkChain e i sid st) =
     (if sid \<noteq> sessionId st then isPlaying st else \<not> jsLe (ofNat (length (chunks st))) i)"
  by (simp add: speakChunkChain_def sessionOver_def resolvePlayback_def Let_def)

lemma isPaused_speakChunkChain:
  "isPaused (speakChunkChain e i sid st) = (if sid \<noteq> sessionId st then isPaused st else False)"
  by (simp add: speakChunkChain_def sessionOver_def resolvePlayback_def Let_def)

lemma engine_speakChunkChain:
  "engine (speakChunkChain e i sid st) =
     (if sid \<noteq> sessionId st \<or> jsLe (ofNat (length (chunks st))) i \<or> blank (nextUtterance st i)
      then engine st
      else engine st @ [Speak (nextUtterance st i) (optionsVoice (currentPreferences st))
                          (rateOr1 (currentPreferences st)) i sid])"
proof (cases "sid \<noteq> sessionId st \<or> jsLe (ofNat (length (chunks st))) i")
  case True
  then show ?thesis
    by (auto simp: speakChunkChain_def sessionOver_def resolvePlayback_def)
next
  case False
  show ?thesis
  proof (cases "truthyStr (overrideFirstChunk st) \<and> jsEq i i")
    case True
    with False show ?thesis
      by (auto simp: speakChunkChain_def Let_def nextUtterance_def blank_def dest: sym)
  next
    case False
    with \<open>\<not> (sid \<noteq> sessionId st \<or> jsLe (ofNat (length (chunks st))) i)\<close> show ?thesis
      by (auto simp: speakChunkChain_def Let_def nextUtterance_def blank_def dest: sym)
  qed
qed

lemma override_speakChunkChain:
  "sid = sessionId st \<Longrightarrow> \<not> jsLe (ofNat (length (chunks st))) i \<Longrightarrow> jsEq i i \<Longrightarrow>
     overrideFirstChunk (speakChunkChain e i sid st) =
       (if truthyStr (overrideFirstChunk st) then None else overrideFirstChunk st)"
  by (simp add: speakChunkChain_def Let_def)

section \<open>The example story\<close>

lemma story1_not_blank: "\<not> blank story1" "story1 \<noteq> []"
  unfolding story1_def blank_def by code_simp+

lemma paused1_facts:
  "isPaused paused1" "\<not> isPlaying paused1" "currentText paused1 = story1"
  "\<not> isInitiatingPlayback paused1" "chunks paused1 = [story1]" "currentChunkIndex paused1 = Fin 0"
  by (simp_all add: paused1_def pauseSpeech_def speakText_def initial_def startChain_def
      speakText_setup_def applyPreferences_def ensurePlaybackPromise_def Let_def
      buildChunks_story1 index_speakChunkChain)

section \<open>The re-entrancy flag\<close>

text \<open>
  C8: a call of \<^verbatim>\<open>speakText\<close>, \<^verbatim>\<open>resumeSpeech\<close> or \<^verbatim>\<open>restartSpeech\<close> made while
  \<^verbatim>\<open>isInitiatingPlayback\<close> is held returns without an exception and leaves the whole
  state as it was: session id, chunks, chunk index, preferences and play state are
  unchanged and no call reaches the speech engine.
\<close>

theorem reentrant_call_ignored:
  "isInitiatingPlayback st \<Longrightarrow>
     speakText e text p st = st \<and> resumeSpeech e st = st \<and> restartSpeech e text p st = st"
  by (simp add: speakText_def resumeSpeech_def restartSpeech_def)

text \<open>
  The flag is held in the state that \<^verbatim>\<open>restartSpeech\<close> leaves at its
  \<^verbatim>\<open>await Speech.stop()\<close>; the three calls made there are ignored, and when the first
  call goes on, one utterance has been handed to the engine.
\<close>

theorem reentrant_call_ignored_witness:
  "isInitiatingPlayback (restartSpeech_setup story1 None initial) \<and>
   speakText droid story1 None (restartSpeech_setup story1 None initial)
     = restartSpeech_setup story1 None initial \<and>
   resumeSpeech droid (restartSpeech_setup story1 None initial)
     = restartSpeech_setup story1 None initial \<and>
   restartSpeech droid story1 None (restartSpeech_setup story1 None initial)
     = restartSpeech_setup story1 None initial \<and>
   engine (startChain droid
             (restartSpeech droid story1 None (restartSpeech_setup story1 None initial)))
     = [Stop, Speak story1 None (Fin 1) (Fin 0) 1]"
proof -
  have held: "isInitiatingPlayback (restartSpeech_setup story1 None initial)"
    by (simp add: restartSpeech_setup_def applyPreferences_def Let_def)
  note ignored = reentrant_call_ignored [OF held]
  have "engine (startChain droid (restartSpeech_setup story1 None initial))
          = [Stop, Speak story1 None (Fin 1) (Fin 0) 1]"
    using story1_not_blank
    by (simp add: startChain_def restartSpeech_setup_def applyPreferences_def initial_def
        ensurePlaybackPromise_def engine_speakChunkChain nextUtterance_def truthyStr_def
        chunkAt_def optionsVoice_def rateOr1_def buildChunks_story1 Let_def)
  with held ignored show ?thesis by simp
qed

section \<open>Play on a paused session\<close>

lemma speakText_paused_same:
  "\<not> isInitiatingPlayback st \<Longrightarrow> isPaused st \<Longrightarrow> currentText st = text \<Longrightarrow>
     speakText e text p st = st"
  by (simp add: speakText_def resumeSpeech_def)

text \<open>
  C1: on a paused session, \<^verbatim>\<open>speakText\<close> with the loaded text should hand over to
  \<^verbatim>\<open>resumeSpeech\<close> and set the session playing at the saved index. It takes the
  re-entrancy flag first, so the \<^verbatim>\<open>resumeSpeech\<close> it calls sees the flag held and
  returns at once: on the paused example the state comes back unchanged, still paused,
  with no call to the engine, while \<^verbatim>\<open>resumeSpeech\<close> called directly does set it
  playing.
\<close>

theorem speakText_paused_does_not_resume:
  "isPaused paused1 \<and> currentText paused1 = story1 \<and> \<not> isInitiatingPlayback paused1 \<and>
   speakText droid story1 None paused1 = paused1 \<and>
   isPaused (speakText droid story1 None paused1) \<and>
   \<not> isPlaying (speakText droid story1 None paused1) \<and>
   engine (speakText droid story1 None paused1) = engine paused1 \<and>
   isPlaying (resumeSpeech droid paused1)"
proof -
  have "speakText droid story1 None paused1 = paused1"
    by (rule speakText_paused_same) (simp_all add: paused1_facts)
  moreover have "isPlaying (resumeSpeech droid paused1)"
    by (simp add: resumeSpeech_def resumeSpeech_finish_def resumeSpeech_setup_def paused1_facts
        story1_not_blank droid_def ensurePlaybackPromise_def isPlaying_speakChunkChain Let_def)
  ultimately show ?thesis
    by (simp add: paused1_facts)
qed
section \<open>Pause and resume\<close>

lemma sent_not_blank: "\<not> blank sentA" "\<not> blank sentB" "\<not> blank sentC"
  by (simp_all add: tight_not_blank sent_tight)

lemma sent_not_Nil: "sentA \<noteq> []" "sentB \<noteq> []" "sentC \<noteq> []"
  using sent_tight by (simp_all add: tight_def)

lemma started3:
  "speakText droid story3 None initial =
     initial\<lparr>isPlaying := True, currentText := story3, chunks := [sentA, sentB, sentC],
       sessionId := 1, playbackPromise := True, chunkStartTime := Some 1000,
       chunkStartPrefs := Some \<lparr>voice = None, rate = Some (Fin 1)\<rparr>,
       engine := [Speak sentA None (Fin 1) (Fin 0) 1]\<rparr>"
  using sent_not_blank sent_not_Nil
  by (simp add: speakText_def speakText_setup_def startChain_def speakChunkChain_def
      updateProgress_def ensurePlaybackPromise_def applyPreferences_def initial_def droid_def
      buildChunks_story3 chunkAt_def truthyStr_def optionsVoice_def rateOr1_def blank_def Let_def
      story3_facts)

lemma playing3_eq:
  "playing3 =
     initial\<lparr>isPlaying := True, currentText := story3, chunks := [sentA, sentB, sentC],
       currentChunkIndex := Fin 1,
       sessionId := 1, playbackPromise := True, chunkStartTime := Some 1000,
       chunkStartPrefs := Some \<lparr>voice = None, rate = Some (Fin 1)\<rparr>,
       engine := [Speak sentA None (Fin 1) (Fin 0) 1, Speak sentB None (Fin 1) (Fin 1) 1]\<rparr>"
  unfolding playing3_def started3
  using sent_not_blank sent_not_Nil
  by (simp add: onDone_def speakChunkChain_def
      updateProgress_def initial_def droid_def
      chunkAt_def truthyStr_def optionsVoice_def rateOr1_def blank_def Let_def)

lemma pauseSpeech_fields [simp]:
  "currentChunkIndex (pauseSpeech e st) = currentChunkIndex st"
  "sessionId (pauseSpeech e st) = sessionId st"
  "chunks (pauseSpeech e st) = chunks st"
  "currentText (pauseSpeech e st) = currentText st"
  "isInitiatingPlayback (pauseSpeech e st) = isInitiatingPlayback st"
  "overrideFirstChunk (pauseSpeech e st) = overrideFirstChunk st"
  "currentPreferences (pauseSpeech e st) = currentPreferences st"
  "isPaused (pauseSpeech e st) = True"
  "isPlaying (pauseSpeech e st) = False"
  by (simp_all add: pauseSpeech_def Let_def)

lemma resumeSpeech_position:
  assumes "\<not> isInitiatingPlayback st" "currentText st \<noteq> []" "chunks st \<noteq> []"
    "\<not> jsLe (ofNat (length (chunks st))) (currentChunkIndex st)"
  shows "currentChunkIndex (resumeSpeech e st) = currentChunkIndex st"
    "isPlaying (resumeSpeech e st)" "\<not> isPaused (resumeSpeech e st)"
    "sessionId (resumeSpeech e st) = sessionId st" "chunks (resumeSpeech e st) = chunks st"
    "\<not> isInitiatingPlayback (resumeSpeech e st)"
  using assms
  by (auto simp: resumeSpeech_def resumeSpeech_finish_def resumeSpeech_setup_def
      ensurePlaybackPromise_def index_speakChunkChain isPlaying_speakChunkChain
      isPaused_speakChunkChain Let_def)

lemma resumeSpeech_engine:
  assumes "\<not> isInitiatingPlayback st" "currentText st \<noteq> []" "chunks st \<noteq> []"
    "\<not> jsLe (ofNat (length (chunks st))) (currentChunkIndex st)"
  shows "engine (resumeSpeech e st) =
     (if \<not> android e \<and> \<not> resumeThrows e then engine st @ [Stop, Resume]
      else engine st @ [Stop] @ (if android e then [] else [Resume]) @
           (if blank (nextUtterance st (currentChunkIndex st)) then []
            else [Speak (nextUtterance st (currentChunkIndex st)) (optionsVoice (currentPreferences st))
                    (rateOr1 (currentPreferences st)) (currentChunkIndex st) (sessionId st)]))"
  using assms
  by (auto simp: resumeSpeech_def resumeSpeech_finish_def resumeSpeech_setup_def
      ensurePlaybackPromise_def engine_speakChunkChain nextUtterance_def Let_def)

lemma nextUtterance_pause [simp]: "nextUtterance (pauseSpeech e st) i = nextUtterance st i"
  by (simp add: nextUtterance_def)

text \<open>
  C3: pause and then resume should take up the narration at the chunk that was playing,
  by restarting the chunk chain at the saved index. \<^verbatim>\<open>pauseSpeech\<close> does keep the
  index. But \<^verbatim>\<open>resumeSpeech\<close> first calls \<^verbatim>\<open>Speech.stop()\<close>, which ends the
  paused utterance, and where \<^verbatim>\<open>Speech.resume()\<close> does not throw it returns right
  after that call: the session that played chunk 1 of 3, paused and resumed on \<open>ios\<close>,
  is marked as playing at index 1 while the engine was asked to pause, stop and resume
  and was given no utterance. The same two calls on Android restart the chain: chunk 1 is
  handed to the engine with callbacks for index 1 under the same session id.
\<close>

theorem resume_issues_no_utterance:
  "isPlaying playing3 \<and> \<not> isPaused playing3 \<and> currentChunkIndex playing3 = Fin 1 \<and>
   length (chunks playing3) = 3 \<and>
   currentChunkIndex (pauseSpeech ios playing3) = Fin 1 \<and>
   engine (resumeSpeech ios (pauseSpeech ios playing3)) = engine playing3 @ [Pause, Stop, Resume] \<and>
   isPlaying (resumeSpeech ios (pauseSpeech ios playing3)) \<and>
   currentChunkIndex (resumeSpeech ios (pauseSpeech ios playing3)) = Fin 1 \<and>
   engine (resumeSpeech droid (pauseSpeech droid playing3)) =
     engine playing3 @ [Stop, Stop, Speak sentB None (Fin 1) (Fin 1) 1]"
proof -
  have pre: "\<not> isInitiatingPlayback (pauseSpeech e playing3)" "currentText (pauseSpeech e playing3) \<noteq> []"
    "chunks (pauseSpeech e playing3) \<noteq> []"
    "\<not> jsLe (ofNat (length (chunks (pauseSpeech e playing3)))) (currentChunkIndex (pauseSpeech e playing3))"
    for e
    by (simp_all add: playing3_eq initial_def story3_facts)
  have p: "engine (pauseSpeech ios playing3) = engine playing3 @ [Pause]"
    "engine (pauseSpeech droid playing3) = engine playing3 @ [Stop]"
    by (simp_all add: pauseSpeech_def ios_def droid_def Let_def)
  have u: "nextUtterance playing3 (Fin 1) = sentB" "currentChunkIndex playing3 = Fin 1"
    "optionsVoice (currentPreferences playing3) = None" "rateOr1 (currentPreferences playing3) = Fin 1"
    "sessionId playing3 = 1" "isPlaying playing3" "\<not> isPaused playing3" "length (chunks playing3) = 3"
    by (simp_all add: playing3_eq initial_def nextUtterance_def truthyStr_def chunkAt_def
        optionsVoice_def rateOr1_def)
  have a: "engine (resumeSpeech ios (pauseSpeech ios playing3)) = engine playing3 @ [Pause, Stop, Resume]"
    by (simp add: resumeSpeech_engine [OF pre] p) (simp add: ios_def)
  have b: "engine (resumeSpeech droid (pauseSpeech droid playing3)) =
     engine playing3 @ [Stop, Stop, Speak sentB None (Fin 1) (Fin 1) 1]"
    by (simp add: resumeSpeech_engine [OF pre] p u sent_not_blank) (simp add: droid_def)
  from a b u resumeSpeech_position(1,2) [OF pre, of ios ios] show ?thesis
    by simp
qed

section \<open>Stale callbacks\<close>

lemma restartSpeech_sessionId:
  "\<not> isInitiatingPlayback st \<Longrightarrow> sessionId (restartSpeech e t p st) = sessionId st + 1"
  by (simp add: restartSpeech_def startChain_def restartSpeech_setup_def applyPreferences_def
      ensurePlaybackPromise_def Let_def split: option.splits)

text \<open>
  C4: a call of \<^verbatim>\<open>speakChunkChain\<close> or of a callback \<^verbatim>\<open>onDone\<close>, \<^verbatim>\<open>onStopped\<close>,
  \<^verbatim>\<open>onError\<close> whose \<open>sid\<close> is not the current \<^verbatim>\<open>sessionId\<close> leaves the state as it
  is. \<^verbatim>\<open>restartSpeech\<close> raises the session id by one, so every callback of the session
  it replaced is ignored afterwards: the chunk index and the play state of the new
  session do not change.
\<close>

theorem stale_callback_ignored:
  "(sid \<noteq> sessionId st \<longrightarrow>
      speakChunkChain e i sid st = st \<and> onDone e i sid st = st \<and>
      onStopped i sid st = st \<and> onError i sid st = st) \<and>
   (\<not> isInitiatingPlayback st \<longrightarrow>
      sessionId (restartSpeech e t p st) = sessionId st + 1 \<and>
      speakChunkChain e' i (sessionId st) (restartSpeech e t p st) = restartSpeech e t p st \<and>
      onDone e' i (sessionId st) (restartSpeech e t p st) = restartSpeech e t p st \<and>
      onStopped i (sessionId st) (restartSpeech e t p st) = restartSpeech e t p st \<and>
      onError i (sessionId st) (restartSpeech e t p st) = restartSpeech e t p st)"
  by (simp add: restartSpeech_sessionId speakChunkChain_def onDone_def onStopped_def onError_def)

text \<open>The session playing chunk 1 is restarted; the callbacks of chunk 1 arrive late.\<close>

theorem stale_callback_ignored_witness:
  "sessionId playing3 = 1 \<and> \<not> isInitiatingPlayback playing3 \<and>
   sessionId (restartSpeech droid story3 None playing3) = 2 \<and>
   onDone droid (Fin 1) 1 (restartSpeech droid story3 None playing3) = restartSpeech droid story3 None playing3 \<and>
   currentChunkIndex (onDone droid (Fin 1) 1 (restartSpeech droid story3 None playing3)) = Fin 0 \<and>
   (1::int) \<noteq> sessionId (restartSpeech droid story3 None playing3) \<and>
   onStopped (Fin 1) 1 (restartSpeech droid story3 None playing3) = restartSpeech droid story3 None playing3"
proof -
  have h: "sessionId playing3 = 1" "\<not> isInitiatingPlayback playing3"
    by (simp_all add: playing3_eq initial_def)
  have idx: "currentChunkIndex (restartSpeech droid story3 None playing3) = Fin 0"
    using h by (simp add: restartSpeech_def startChain_def restartSpeech_setup_def applyPreferences_def
        ensurePlaybackPromise_def index_speakChunkChain Let_def)
  note t = stale_callback_ignored [where sid = 1 and st = "restartSpeech droid story3 None playing3"
      and e = droid and i = "Fin 1"]
  note u = stale_callback_ignored [where st = playing3 and e = droid and t = story3 and p = None
      and e' = droid and i = "Fin 1"]
  from u h have a: "sessionId (restartSpeech droid story3 None playing3) = 2" by simp
  from u h have b: "onDone droid (Fin 1) 1 (restartSpeech droid story3 None playing3) = restartSpeech droid story3 None playing3"
    by simp
  from t a have c: "onStopped (Fin 1) 1 (restartSpeech droid story3 None playing3) = restartSpeech droid story3 None playing3"
    by simp
  from a b c h idx show ?thesis by simp
qed

section \<open>Seeking\<close>


lemma seekToChunk_rejected:
  "currentText st = [] \<or> chunks st = [] \<or> jsLt idx (Fin 0) \<or> jsLe (ofNat (length (chunks st))) idx
     \<Longrightarrow> seekToChunk_during e idx between st = st"
  by (auto simp: seekToChunk_during_def seekToChunk_setup_def)

lemma restart_in_seek:
  assumes "currentText st = story3" "chunks st = [sentA, sentB, sentC]" "isPlaying st"
    "sessionId st = 1"
  shows "seekToChunk_during droid (Fin 2) (restartSpeech_setup story1 None) st =
     updateProgress
       ((updateProgress
          (st\<lparr>isInitiatingPlayback := True, currentText := story1, chunks := [story1],
              currentChunkIndex := Fin 2, isPaused := False, sessionId := 3,
              engine := engine st @ [Stop, Stop]\<rparr>))
        \<lparr>isPlaying := False, isPaused := False, currentChunkIndex := Fin 0\<rparr>)
     \<lparr>playbackPromise := False\<rparr>"
  using assms
  by (simp add: seekToChunk_during_def seekToChunk_setup_def seekToChunk_finish_def
      restartSpeech_setup_def applyPreferences_def buildChunks_story1 speakChunkChain_def
      sessionOver_def resolvePlayback_def ensurePlaybackPromise_def story3_facts Let_def
      updateProgress_def getCurrentProgress_def)


text \<open>
  The callbacks of the utterance being stopped are still live while \<^verbatim>\<open>seekToChunk\<close>
  awaits: \<^verbatim>\<open>onDone\<close> of chunk 1 arriving there starts chunk 2 under the old session
  id, before the seek to chunk 0 speaks chunk 0 under the new one.
\<close>

lemma seekToChunk_live_callback:
  "engine (seekToChunk_during droid (Fin 0) (onDone droid (Fin 1) 1) playing3)
     = engine playing3 @
         [Stop, Speak sentC None (Fin 1) (Fin 2) 1, Speak sentA None (Fin 1) (Fin 0) 2]"
  using sent_not_blank sent_not_Nil
  by (simp add: seekToChunk_during_def seekToChunk_setup_def seekToChunk_finish_def onDone_def
      speakChunkChain_def ensurePlaybackPromise_def updateProgress_def playing3_eq initial_def
      story3_facts chunkAt_def truthyStr_def optionsVoice_def rateOr1_def blank_def droid_def Let_def)

section \<open>Live preference change\<close>

subsection \<open>Words\<close>

lemma jsSplit_words:
  assumes "\<forall>c\<in>set acc. \<not> is_space c" "w \<in> set (jsSplit lb prev acc s)" "\<forall>q. lb q"
  shows "\<forall>c\<in>set w. \<not> is_space c"
  using assms
proof (induction lb prev acc s rule: jsSplit.induct)
  case (1 lb prev acc)
  then show ?case by simp
next
  case (2 lb prev acc c cs)
  show ?case
  proof (cases "is_space c")
    case True
    with "2.prems"(3) have cond: "is_space c \<and> lb prev" by simp
    then have eq: "jsSplit lb prev acc (c # cs) =
        acc # jsSplit lb (Some (last (c # takeWhile is_space cs))) [] (dropWhile is_space cs)"
      by (simp del: last.simps)
    show ?thesis
    proof (cases "w = acc")
      case True
      with "2.prems"(1) show ?thesis by simp
    next
      case False
      with "2.prems"(2) eq
      have "w \<in> set (jsSplit lb (Some (last (c # takeWhile is_space cs))) [] (dropWhile is_space cs))"
        by simp
      moreover have "\<forall>c\<in>set ([] :: jsstring). \<not> is_space c" by simp
      ultimately show ?thesis using "2.IH"(1) [OF cond] "2.prems"(3) by blast
    qed
  next
    case False
    then have cond: "\<not> (is_space c \<and> lb prev)" by simp
    from False have eq: "jsSplit lb prev acc (c # cs) = jsSplit lb (Some c) (acc @ [c]) cs"
      by simp
    with "2.prems"(2) have "w \<in> set (jsSplit lb (Some c) (acc @ [c]) cs)" by simp
    moreover from False "2.prems"(1) have "\<forall>x\<in>set (acc @ [c]). \<not> is_space x" by simp
    ultimately show ?thesis using "2.IH"(2) [OF cond] "2.prems"(3) by blast
  qed
qed

lemma splitWords_tight: "w \<in> set (splitWords s) \<Longrightarrow> tight w"
proof -
  assume "w \<in> set (splitWords s)"
  then have ne: "w \<noteq> []" and "w \<in> set (jsSplit anywhere None [] s)"
    by (simp_all add: splitWords_def)
  then have "\<forall>c\<in>set w. \<not> is_space c"
    using jsSplit_words [of "[]" w anywhere None s] by (simp add: anywhere_def)
  with ne show ?thesis by (simp add: tight_def)
qed

lemma tight_joinSp: "ws \<noteq> [] \<Longrightarrow> \<forall>w\<in>set ws. tight w \<Longrightarrow> tight (joinSp ws)"
proof (induction ws rule: joinSp.induct)
  case 1 then show ?case by simp
next
  case (2 x) then show ?case by simp
next
  case (3 x y ys)
  then have "tight (joinSp (y # ys))" and "tight x" by simp_all
  then show ?case using tight_join [of x "joinSp (y # ys)"] by simp
qed

lemma splitWords_not_Nil: "\<not> blank s \<Longrightarrow> splitWords s \<noteq> []"
proof
  assume nb: "\<not> blank s" and e: "splitWords s = []"
  from e have "\<forall>w\<in>set (jsSplit anywhere None [] s). w = []"
    by (simp add: splitWords_def filter_empty_conv)
  then have "concat (jsSplit anywhere None [] s) = []" by simp
  then have "inkOf (concat (jsSplit anywhere None [] s)) = []" by (simp only: inkOf_Nil)
  then have "inkOf s = []" by (simp add: inkOf_jsSplit)
  then have "\<forall>c\<in>set s. is_space c" by (simp add: inkOf_def filter_empty_conv)
  with nb show False by (simp add: blank_def trim_eq_Nil_iff)
qed

lemma remaining_words:
  assumes "n < length (splitWords s)"
  shows "trim (joinSp (drop n (splitWords s))) = joinSp (drop n (splitWords s))"
    and "joinSp (drop n (splitWords s)) \<noteq> []"
    and "\<not> blank (joinSp (drop n (splitWords s)))"
proof -
  let ?r = "drop n (splitWords s)"
  from assms have "?r \<noteq> []" by simp
  moreover have "\<forall>x\<in>set ?r. tight x" using splitWords_tight by (auto dest: in_set_dropD)
  ultimately have t: "tight (joinSp ?r)" by (rule tight_joinSp)
  then show "trim (joinSp ?r) = joinSp ?r" by (rule trim_tight)
  from t show "joinSp ?r \<noteq> []" by (simp add: tight_def)
  from t show "\<not> blank (joinSp ?r)" by (rule tight_not_blank)
qed

subsection \<open>The estimate\<close>

lemma jsLt_of_not_jsLe: "jsLt (Fin 0) w \<Longrightarrow> \<not> jsLe (ofNat n) w \<Longrightarrow> jsLt w (ofNat n)"
  by (cases w) (simp_all add: ofNat_def)

lemma sliceFrom_toNat:
  assumes "jsLt (Fin 0) w" "jsLt w (ofNat n)"
  shows "sliceFrom w ws = drop (toNat w) ws" and "toNat w < n"
proof -
  from assms obtain x where w: "w = Fin x" and x: "0 < x" "x < real n"
    by (cases w) (simp_all add: ofNat_def)
  from x show "sliceFrom w ws = drop (toNat w) ws"
    by (simp add: w sliceFrom_def toNat_def)
  have "real_of_int \<lfloor>x\<rfloor> < real n" using x(2) by linarith
  then have "\<lfloor>x\<rfloor> < int n" by linarith
  moreover have "0 \<le> \<lfloor>x\<rfloor>" using x(1) by simp
  ultimately show "toNat w < n" by (simp add: w toNat_def nat_less_iff)
qed

text \<open>1.667 seconds at rate 1 are five words, and 60 seconds are 180.\<close>

lemma wordsSpoken_mid: "wordsSpoken 2667 1000 \<lparr>voice = None, rate = Some (Fin 1)\<rparr> = Fin 5"
proof -
  have a: "jsDivPos (Fin 1667) 1000 = Fin (7507500578826617 / 2 ^ 52)"
    using toDouble_round [where x = "1667 / 1000" and e = 0 and f = 7507500578826617] by simp
  have b: "jsMul (Fin 3) (Fin 1) = Fin 3"
    by simp
  have c: "jsMul (Fin (7507500578826617 / 2 ^ 52)) (Fin 3) = Fin (5630625434119963 / 2 ^ 50)"
    using toDouble_round [where x = "7507500578826617 / 2 ^ 52 * 3" and e = 2
        and f = 5630625434119963] by simp
  have d: "jsFloor (Fin (5630625434119963 / 2 ^ 50)) = Fin 5"
    by simp
  have "wordsSpoken 2667 1000 \<lparr>voice = None, rate = Some (Fin 1)\<rparr> =
      jsFloor (jsMul (jsDivPos (Fin 1667) 1000) (jsMul (Fin 3) (Fin 1)))"
    by (simp add: wordsSpoken_def rateOr1_def Let_def del: jsMul.simps jsDivPos.simps jsFloor.simps)
  then show ?thesis
    by (simp only: a b c d)
qed

lemma wordsSpoken_late: "wordsSpoken 61000 1000 \<lparr>voice = None, rate = Some (Fin 1)\<rparr> = Fin 180"
  by (simp add: wordsSpoken_def rateOr1_def Let_def)

text \<open>
  16.4 seconds at rate 2.5: neither 16.4 nor the product with 7.5 is a double, the
  product of the doubles is just below 123, and the estimate is 122 words where the
  product of the exact values, 123, is a whole number.
\<close>

lemma wordsSpoken_rounded: "wordsSpoken 17400 1000 fastest = Fin 122"
proof -
  have a: "jsDivPos (Fin 16400) 1000 = Fin (4616189618054758 / 2 ^ 48)"
    using toDouble_round [where x = "16400 / 1000" and e = 4 and f = 4616189618054758] by simp
  have b: "jsMul (Fin 3) (Fin (5 / 2)) = Fin (15 / 2)"
    using toDouble_dyadic [where x = "15 / 2" and m = 15 and j = 1] by simp
  have c: "jsMul (Fin (4616189618054758 / 2 ^ 48)) (Fin (15 / 2)) = Fin (8655355533852671 / 2 ^ 46)"
    using toDouble_round [where x = "4616189618054758 / 2 ^ 48 * (15 / 2)" and e = 6
        and f = 8655355533852671] by simp
  have d: "jsFloor (Fin (8655355533852671 / 2 ^ 46)) = Fin 122"
    by simp
  have "wordsSpoken 17400 1000 fastest =
      jsFloor (jsMul (jsDivPos (Fin 16400) 1000) (jsMul (Fin 3) (Fin (5 / 2))))"
    by (simp add: wordsSpoken_def rateOr1_def fastest_def Let_def
        del: jsMul.simps jsDivPos.simps jsFloor.simps)
  then show ?thesis
    by (simp only: a b c d)
qed

subsection \<open>setPreferences\<close>

lemma estimateOffset_eq:
  assumes "chunkStartTime st = Some t0" "t0 \<noteq> 0" "chunkStartPrefs st = Some sp"
    and "\<not> blank (chunkAt (chunks st) (currentChunkIndex st))"
  shows "estimateOffset e st =
     (if jsLe (ofNat (length (splitWords (chunkAt (chunks st) (currentChunkIndex st)))))
           (wordsSpoken (now e) t0 sp)
      then st\<lparr>currentChunkIndex :=
                jsMin (jsAdd (currentChunkIndex st) (Fin 1))
                  (jsAdd (ofNat (length (chunks st))) (Fin (- 1)))\<rparr>
      else if jsLt (Fin 0) (wordsSpoken (now e) t0 sp)
      then st\<lparr>overrideFirstChunk := Some (joinSp (drop (toNat (wordsSpoken (now e) t0 sp))
                  (splitWords (chunkAt (chunks st) (currentChunkIndex st)))))\<rparr>
      else st)"
proof -
  let ?ws = "splitWords (chunkAt (chunks st) (currentChunkIndex st))"
  let ?w = "wordsSpoken (now e) t0 sp"
  from assms(4) have ne: "chunkAt (chunks st) (currentChunkIndex st) \<noteq> []"
    by (auto simp: blank_def)
  from assms(4) have wne: "?ws \<noteq> []" by (simp add: splitWords_not_Nil)
  consider (all) "jsLe (ofNat (length ?ws)) ?w"
    | (some) "\<not> jsLe (ofNat (length ?ws)) ?w" "jsLt (Fin 0) ?w"
    | (none) "\<not> jsLe (ofNat (length ?ws)) ?w" "\<not> jsLt (Fin 0) ?w"
    by blast
  then show ?thesis
  proof cases
    case all
    with ne wne assms(1,2,3) show ?thesis
      by (simp add: estimateOffset_def truthyNum_def Let_def)
  next
    case some
    then have lt: "jsLt ?w (ofNat (length ?ws))" by (simp add: jsLt_of_not_jsLe)
    note sl = sliceFrom_toNat(1) [OF some(2) lt, of ?ws]
    have "trim (joinSp (drop (toNat ?w) ?ws)) = joinSp (drop (toNat ?w) ?ws)"
      "joinSp (drop (toNat ?w) ?ws) \<noteq> []"
      using remaining_words [OF sliceFrom_toNat(2) [OF some(2) lt]] by simp_all
    with some sl ne wne assms(1,2,3) show ?thesis
      by (simp add: estimateOffset_def truthyNum_def Let_def)
  next
    case none
    with ne wne assms(1,2,3) show ?thesis
      by (simp add: estimateOffset_def truthyNum_def Let_def)
  qed
qed

lemma setPreferences_run:
  "isPlaying st \<or> isPaused st \<Longrightarrow>
     setPreferences e p st =
       speakChunkChain e (currentChunkIndex (estimateOffset e (st\<lparr>currentPreferences := p\<rparr>)))
         (sessionId (estimateOffset e (st\<lparr>currentPreferences := p\<rparr>)) + 1)
         ((estimateOffset e (st\<lparr>currentPreferences := p\<rparr>))
            \<lparr>sessionId := sessionId (estimateOffset e (st\<lparr>currentPreferences := p\<rparr>)) + 1,
             engine := engine (estimateOffset e (st\<lparr>currentPreferences := p\<rparr>)) @ [Stop],
             playbackPromise := True\<rparr>)"
  by (auto simp: setPreferences_def Let_def ensurePlaybackPromise_def)

lemmas chain_effects = index_speakChunkChain isPlaying_speakChunkChain isPaused_speakChunkChain
  engine_speakChunkChain nextUtterance_def truthyStr_def

lemma advance_index:
  assumes "k < n" "n < 2 ^ 32"
  shows "jsMin (jsAdd (ofNat k) (Fin 1)) (jsAdd (ofNat n) (Fin (- 1))) = ofNat (min (k + 1) (n - 1))"
proof -
  from assms have "k < 2 ^ 32" "0 < n" by linarith+
  then show ?thesis
    using assms(2) by (simp add: jsAdd_ofNat_1 jsAdd_ofNat_m1)
qed

lemma setPreferences_effect:
  assumes "isPlaying st \<or> isPaused st"
    and "chunkStartTime st = Some t0" "t0 \<noteq> 0" "chunkStartPrefs st = Some sp"
    and "currentChunkIndex st = ofNat k" "k < length (chunks st)" "length (chunks st) < 2 ^ 32"
    and "overrideFirstChunk st = None" "\<forall>c\<in>set (chunks st). \<not> blank c"
  shows "sessionId (setPreferences e p st) = sessionId st + 1"
    and "currentPreferences (setPreferences e p st) = p"
    and "isPlaying (setPreferences e p st)" and "\<not> isPaused (setPreferences e p st)"
    and "currentChunkIndex (setPreferences e p st) =
           (if jsLe (ofNat (length (splitWords (chunks st ! k)))) (wordsSpoken (now e) t0 sp)
            then ofNat (min (k + 1) (length (chunks st) - 1))
            else ofNat k)"
    and "engine (setPreferences e p st) = engine st @
           [Stop,
            Speak (if jsLt (Fin 0) (wordsSpoken (now e) t0 sp) \<and>
                      jsLt (wordsSpoken (now e) t0 sp) (ofNat (length (splitWords (chunks st ! k))))
                   then joinSp (drop (toNat (wordsSpoken (now e) t0 sp)) (splitWords (chunks st ! k)))
                   else chunkAt (chunks st) (currentChunkIndex (setPreferences e p st)))
              (optionsVoice p) (rateOr1 p) (currentChunkIndex (setPreferences e p st))
              (sessionId st + 1)]"
proof -
  let ?s1 = "st\<lparr>currentPreferences := p\<rparr>"
  let ?n = "length (chunks st)"
  let ?ws = "splitWords (chunks st ! k)"
  let ?w = "wordsSpoken (now e) t0 sp"
  define k' where "k' = min (k + 1) (?n - 1)"
  have ck: "chunkAt (chunks st) (ofNat k) = chunks st ! k"
    using assms(6) by (simp add: chunkAt_ofNat)
  have nbk: "\<not> blank (chunks st ! k)"
    using assms(6,9) by simp
  have k': "k' < ?n" using assms(6) by (auto simp: k'_def min_def)
  have ck': "chunkAt (chunks st) (ofNat k') = chunks st ! k'"
    using k' by (simp add: chunkAt_ofNat)
  have nbk': "\<not> blank (chunks st ! k')"
    using assms(9) k' nth_mem by blast
  have adv: "jsMin (jsAdd (ofNat k) (Fin 1)) (jsAdd (ofNat ?n) (Fin (- 1))) = ofNat k'"
    unfolding k'_def by (rule advance_index [OF assms(6,7)])
  have est: "estimateOffset e ?s1 =
     (if jsLe (ofNat (length ?ws)) ?w then ?s1\<lparr>currentChunkIndex := ofNat k'\<rparr>
      else if jsLt (Fin 0) ?w then ?s1\<lparr>overrideFirstChunk := Some (joinSp (drop (toNat ?w) ?ws))\<rparr>
      else ?s1)"
    using estimateOffset_eq [of ?s1 t0 sp e] assms(2,3,4,5) nbk ck adv by simp
  note run = setPreferences_run [OF assms(1), of e p]
  consider (all) "jsLe (ofNat (length ?ws)) ?w"
    | (some) "\<not> jsLe (ofNat (length ?ws)) ?w" "jsLt (Fin 0) ?w"
    | (none) "\<not> jsLe (ofNat (length ?ws)) ?w" "\<not> jsLt (Fin 0) ?w"
    by blast
  then have "sessionId (setPreferences e p st) = sessionId st + 1 \<and>
      currentPreferences (setPreferences e p st) = p \<and>
      isPlaying (setPreferences e p st) \<and> \<not> isPaused (setPreferences e p st) \<and>
      currentChunkIndex (setPreferences e p st) =
        (if jsLe (ofNat (length ?ws)) ?w then ofNat k' else ofNat k) \<and>
      engine (setPreferences e p st) = engine st @
           [Stop,
            Speak (if jsLt (Fin 0) ?w \<and> jsLt ?w (ofNat (length ?ws)) then joinSp (drop (toNat ?w) ?ws)
                   else chunkAt (chunks st) (if jsLe (ofNat (length ?ws)) ?w then ofNat k' else ofNat k))
              (optionsVoice p) (rateOr1 p) (if jsLe (ofNat (length ?ws)) ?w then ofNat k' else ofNat k)
              (sessionId st + 1)]"
  proof cases
    case all
    then have e1: "estimateOffset e ?s1 = ?s1\<lparr>currentChunkIndex := ofNat k'\<rparr>"
      using est by simp
    from all have nlt: "\<not> jsLt ?w (ofNat (length ?ws))"
      by (cases ?w) (simp_all add: ofNat_def)
    from all nlt k' nbk' assms(8) show ?thesis
      unfolding run e1 by (simp add: chain_effects ck')
  next
    case some
    then have e2: "estimateOffset e ?s1 = ?s1\<lparr>overrideFirstChunk := Some (joinSp (drop (toNat ?w) ?ws))\<rparr>"
      using est by simp
    from some have lt: "jsLt ?w (ofNat (length ?ws))" by (simp add: jsLt_of_not_jsLe)
    from remaining_words [OF sliceFrom_toNat(2) [OF some(2) lt]]
    have r: "joinSp (drop (toNat ?w) ?ws) \<noteq> []" "\<not> blank (joinSp (drop (toNat ?w) ?ws))" by simp_all
    from some lt r assms(5,6) show ?thesis
      unfolding run e2 by (simp add: chain_effects)
  next
    case none
    then have e3: "estimateOffset e ?s1 = ?s1"
      using est by simp
    from none nbk assms(5,6,8) show ?thesis
      unfolding run e3 by (simp add: chain_effects ck)
  qed
  then show "sessionId (setPreferences e p st) = sessionId st + 1"
    and "currentPreferences (setPreferences e p st) = p"
    and "isPlaying (setPreferences e p st)" and "\<not> isPaused (setPreferences e p st)"
    and "currentChunkIndex (setPreferences e p st) =
          (if jsLe (ofNat (length ?ws)) ?w then ofNat (min (k + 1) (?n - 1)) else ofNat k)"
    and "engine (setPreferences e p st) = engine st @
           [Stop,
            Speak (if jsLt (Fin 0) ?w \<and> jsLt ?w (ofNat (length ?ws)) then joinSp (drop (toNat ?w) ?ws)
                   else chunkAt (chunks st) (currentChunkIndex (setPreferences e p st)))
              (optionsVoice p) (rateOr1 p) (currentChunkIndex (setPreferences e p st))
              (sessionId st + 1)]"
    unfolding k'_def by simp_all
qed

lemma buildChunks_tenWords: "buildChunks tenWords = [tenWords]"
  unfolding tenWords_def by code_simp

lemma splitWords_tenWords:
  "splitWords tenWords = [js ''one'', js ''two'', js ''three'', js ''four'', js ''five'',
     js ''six'', js ''seven'', js ''eight'', js ''nine'', js ''ten'']"
  unfolding tenWords_def by code_simp

lemma tenWords_not_blank: "\<not> blank tenWords" "tenWords \<noteq> []"
  unfolding tenWords_def blank_def by code_simp+

lemma playing10_eq:
  "playing10 =
     initial\<lparr>isPlaying := True, currentText := tenWords, chunks := [tenWords],
       sessionId := 1, playbackPromise := True, chunkStartTime := Some 1000,
       chunkStartPrefs := Some \<lparr>voice = None, rate = Some (Fin 1)\<rparr>,
       engine := [Speak tenWords None (Fin 1) (Fin 0) 1]\<rparr>"
  unfolding playing10_def using tenWords_not_blank
  by (simp add: speakText_def speakText_setup_def startChain_def speakChunkChain_def
      updateProgress_def ensurePlaybackPromise_def applyPreferences_def initial_def droid_def
      buildChunks_tenWords chunkAt_def truthyStr_def optionsVoice_def rateOr1_def blank_def Let_def)

text \<open>
  C5, amended: let the session be playing or paused with the chunk-start markers set,
  no override pending and no blank chunk, let \<open>k\<close> be the chunk index, \<open>n\<close> the number
  of chunks (below \<open>2\<^sup>3\<^sup>2\<close>, as for every array), \<open>ws\<close> the words of chunk \<open>k\<close> and \<open>w\<close>
  the estimate \<^verbatim>\<open>Math.floor(elapsedSec * wordsPerSec)\<close> as the code computes it, in
  doubles, from the milliseconds elapsed and the rate of the markers. Then
  \<^verbatim>\<open>setPreferences\<close>, with nothing else running while it awaits, replaces the
  preferences, raises \<^verbatim>\<open>sessionId\<close> by one and leaves the session playing. If \<open>w\<close> is
  at least the number of words, the index becomes \<open>min (k + 1) (n - 1)\<close>: it advances by
  one except on the last chunk, where it stays. Otherwise it stays \<open>k\<close>. The engine is
  stopped and then given one utterance with the new preferences, for the new index and
  the new session id: the words of the chunk from the \<open>w\<close>-th on, joined with single
  spaces, when \<open>0 < w < length ws\<close>, and the whole chunk at the new index otherwise
  (also when \<open>w\<close> is NaN).
\<close>

theorem setPreferences_offset:
  assumes "isPlaying st \<or> isPaused st"
    and "chunkStartTime st = Some t0" "t0 \<noteq> 0" "chunkStartPrefs st = Some sp"
    and "currentChunkIndex st = ofNat k" "k < length (chunks st)" "length (chunks st) < 2 ^ 32"
    and "overrideFirstChunk st = None" "\<forall>c\<in>set (chunks st). \<not> blank c"
    and "w = wordsSpoken (now e) t0 sp" "ws = splitWords (chunks st ! k)"
    and "st' = setPreferences e p st"
  shows "sessionId st' = sessionId st + 1 \<and> currentPreferences st' = p \<and>
         isPlaying st' \<and> \<not> isPaused st' \<and>
         currentChunkIndex st' =
           (if jsLe (ofNat (length ws)) w then ofNat (min (k + 1) (length (chunks st) - 1))
            else ofNat k) \<and>
         engine st' = engine st @
           [Stop,
            Speak (if jsLt (Fin 0) w \<and> jsLt w (ofNat (length ws)) then joinSp (drop (toNat w) ws)
                   else chunkAt (chunks st) (currentChunkIndex st'))
              (optionsVoice p) (rateOr1 p) (currentChunkIndex st') (sessionId st + 1)]"
proof -
  note eff = setPreferences_effect [OF assms(1-9), of e p]
  show ?thesis
    unfolding assms(10,11,12)
    using eff(1-4) eff(5) eff(6) by (simp only: simp_thms)
qed

text \<open>
  C5 as stated fails on the last chunk: 60 seconds into the only chunk, of ten words,
  the estimate is 180 words, and the index stays 0 because of
  \<^verbatim>\<open>Math.min(currentChunkIndex + 1, chunks.length - 1)\<close>.
\<close>

theorem setPreferences_advance_counterexample:
  "isPlaying playing10 \<and> chunks playing10 = [tenWords] \<and> currentChunkIndex playing10 = Fin 0 \<and>
   chunkStartTime playing10 = Some 1000 \<and> length (splitWords tenWords) = 10 \<and>
   wordsSpoken (now late) 1000 \<lparr>voice = None, rate = Some (Fin 1)\<rparr> = Fin 180 \<and>
   currentChunkIndex (setPreferences late faster playing10) = Fin 0 \<and>
   currentChunkIndex (setPreferences late faster playing10)
     \<noteq> jsAdd (currentChunkIndex playing10) (Fin 1)"
proof -
  have h: "isPlaying playing10 \<or> isPaused playing10" "chunkStartTime playing10 = Some 1000"
    "(1000::int) \<noteq> 0" "chunkStartPrefs playing10 = Some \<lparr>voice = None, rate = Some (Fin 1)\<rparr>"
    "currentChunkIndex playing10 = ofNat 0" "0 < length (chunks playing10)"
    "length (chunks playing10) < 2 ^ 32"
    "overrideFirstChunk playing10 = None" "\<forall>c\<in>set (chunks playing10). \<not> blank c"
    by (simp_all add: playing10_eq initial_def tenWords_not_blank ofNat_def)
  have v: "chunks playing10 = [tenWords]" "currentChunkIndex playing10 = Fin 0" "isPlaying playing10"
    by (simp_all add: playing10_eq initial_def)
  have w: "wordsSpoken (now late) 1000 \<lparr>voice = None, rate = Some (Fin 1)\<rparr> = Fin 180"
    by (simp add: late_def wordsSpoken_late)
  have "currentChunkIndex (setPreferences late faster playing10) = Fin 0"
    by (simp add: setPreferences_effect(5) [OF h] v w splitWords_tenWords ofNat_def)
  with v w h(2) show ?thesis by (simp add: splitWords_tenWords)
qed

text \<open>
  Ten words at rate 1, the rate set to 1.5 after 1.667 seconds: the quotient and the
  product are rounded, five words are taken as spoken and the next utterance is the
  last five. And 16.4 seconds at rate 2.5 are taken as 122 words.
\<close>

theorem setPreferences_offset_witness:
  "isPlaying playing10 \<and> chunks playing10 = [tenWords] \<and> currentChunkIndex playing10 = Fin 0 \<and>
   wordsSpoken (now mid) 1000 \<lparr>voice = None, rate = Some (Fin 1)\<rparr> = Fin 5 \<and>
   sessionId (setPreferences mid faster playing10) = 2 \<and>
   currentChunkIndex (setPreferences mid faster playing10) = Fin 0 \<and>
   isPlaying (setPreferences mid faster playing10) \<and>
   engine (setPreferences mid faster playing10) =
     [Speak tenWords None (Fin 1) (Fin 0) 1, Stop,
      Speak (js ''six seven eight nine ten'') None (Fin (3 / 2)) (Fin 0) 2] \<and>
   wordsSpoken 17400 1000 fastest = Fin 122"
proof -
  have h: "isPlaying playing10 \<or> isPaused playing10" "chunkStartTime playing10 = Some 1000"
    "(1000::int) \<noteq> 0" "chunkStartPrefs playing10 = Some \<lparr>voice = None, rate = Some (Fin 1)\<rparr>"
    "currentChunkIndex playing10 = ofNat 0" "0 < length (chunks playing10)"
    "length (chunks playing10) < 2 ^ 32"
    "overrideFirstChunk playing10 = None" "\<forall>c\<in>set (chunks playing10). \<not> blank c"
    by (simp_all add: playing10_eq initial_def tenWords_not_blank ofNat_def)
  have v: "chunks playing10 = [tenWords]" "isPlaying playing10" "sessionId playing10 = 1"
    "engine playing10 = [Speak tenWords None (Fin 1) (Fin 0) 1]"
    "currentChunkIndex playing10 = Fin 0"
    by (simp_all add: playing10_eq initial_def)
  have w: "wordsSpoken (now mid) 1000 \<lparr>voice = None, rate = Some (Fin 1)\<rparr> = Fin 5"
    by (simp add: mid_def wordsSpoken_mid)
  have rest: "joinSp (drop 5 (splitWords tenWords)) = js ''six seven eight nine ten''"
    by (simp add: splitWords_tenWords js_def SP_def)
  have o: "optionsVoice faster = None" "rateOr1 faster = Fin (3 / 2)"
    by (simp_all add: faster_def optionsVoice_def truthyStr_def rateOr1_def)
  from setPreferences_offset [OF h refl refl refl, of mid faster]
  show ?thesis
    using v w rest o wordsSpoken_rounded
    by (simp add: splitWords_tenWords toNat_def ofNat_def)
qed

section \<open>The reported progress\<close>

lemma toDouble_three_halves: "toDouble (3 / 2) = Fin (3 / 2)"
  using toDouble_dyadic [where x = "3 / 2" and m = 3 and j = 1] by simp

lemma watched3_facts:
  "currentText watched3 = story3" "chunks watched3 = [sentA, sentB, sentC]" "isPlaying watched3"
  "sessionId watched3 = 1" "progressCallback watched3" "reported watched3 = []"
  "currentChunkIndex watched3 = Fin 1" "\<not> isInitiatingPlayback watched3"
  by (simp_all add: watched3_def setProgressCallback_def playing3_eq initial_def)

lemma watched1_eq:
  "watched1 =
     initial\<lparr>isPlaying := True, currentText := story1, chunks := [story1],
       sessionId := 1, playbackPromise := True, progressCallback := True,
       chunkStartTime := Some 1000,
       chunkStartPrefs := Some \<lparr>voice = None, rate = Some (Fin 1)\<rparr>,
       engine := [Speak story1 None (Fin 1) (Fin 0) 1]\<rparr>"
  unfolding watched1_def using story1_not_blank
  by (simp add: speakText_def speakText_setup_def startChain_def speakChunkChain_def
      updateProgress_def ensurePlaybackPromise_def applyPreferences_def initial_def droid_def
      buildChunks_story1 chunkAt_def truthyStr_def optionsVoice_def rateOr1_def blank_def Let_def
      setProgressCallback_def)

text \<open>
  C10: every value handed to the progress callback should have
  \<open>1 \<le> currentChunk \<le> totalChunks\<close> and a fraction between 0 and 1, the chunk index
  being kept inside the chunks. \<^verbatim>\<open>seekToChunk\<close> checks the index before
  \<^verbatim>\<open>await Speech.stop()\<close> and assigns it after, with no second check. A progress
  callback is registered on the session playing chunk 1 of 3, \<^verbatim>\<open>seekToChunk(2)\<close> is
  called and, while it awaits, \<^verbatim>\<open>restartSpeech\<close> loads a story of one chunk: the
  callback is then handed chunk 3 of 1 with the fraction 3. The guards of
  \<^verbatim>\<open>seekToChunk\<close> also let every number from 0 to below the length through: on a
  story of one chunk, \<^verbatim>\<open>seekToChunk(0.5)\<close> leaves the index at 0.5, reports chunk 1.5
  of 1 with the fraction 1.5, twice, and marks the session as playing with nothing
  handed to the engine but the stop.
\<close>

theorem progress_report_out_of_bounds:
  "progressCallback watched3 \<and> isPlaying watched3 \<and> length (chunks watched3) = 3 \<and>
   currentChunkIndex watched3 = Fin 1 \<and> reported watched3 = [] \<and>
   \<not> isInitiatingPlayback watched3 \<and>
   seekToChunk_setup (Fin 2) watched3 = Some (watched3\<lparr>engine := engine watched3 @ [Stop]\<rparr>) \<and>
   reported (seekToChunk_during droid (Fin 2) (restartSpeech_setup story1 None) watched3) =
     [\<lparr>currentChunk = Fin 3, totalChunks = 1, progress = Fin 3\<rparr>,
      \<lparr>currentChunk = Fin 1, totalChunks = 1, progress = Fin 1\<rparr>] \<and>
   \<not> goodProgress \<lparr>currentChunk = Fin 3, totalChunks = 1, progress = Fin 3\<rparr> \<and>
   progressCallback watched1 \<and> chunks watched1 = [story1] \<and> reported watched1 = [] \<and>
   seekToChunk_setup (Fin (1 / 2)) watched1 = Some (watched1\<lparr>engine := engine watched1 @ [Stop]\<rparr>) \<and>
   currentChunkIndex (seekToChunk droid (Fin (1 / 2)) watched1) = Fin (1 / 2) \<and>
   isPlaying (seekToChunk droid (Fin (1 / 2)) watched1) \<and>
   engine (seekToChunk droid (Fin (1 / 2)) watched1) = engine watched1 @ [Stop] \<and>
   reported (seekToChunk droid (Fin (1 / 2)) watched1) =
     [\<lparr>currentChunk = Fin (3 / 2), totalChunks = 1, progress = Fin (3 / 2)\<rparr>,
      \<lparr>currentChunk = Fin (3 / 2), totalChunks = 1, progress = Fin (3 / 2)\<rparr>] \<and>
   \<not> goodProgress \<lparr>currentChunk = Fin (3 / 2), totalChunks = 1, progress = Fin (3 / 2)\<rparr>"
proof -
  note w = watched3_facts
  have s: "seekToChunk_setup (Fin 2) watched3 = Some (watched3\<lparr>engine := engine watched3 @ [Stop]\<rparr>)"
    by (simp add: seekToChunk_setup_def w story3_facts)
  have r: "reported (seekToChunk_during droid (Fin 2) (restartSpeech_setup story1 None) watched3) =
     [\<lparr>currentChunk = Fin 3, totalChunks = 1, progress = Fin 3\<rparr>,
      \<lparr>currentChunk = Fin 1, totalChunks = 1, progress = Fin 1\<rparr>]"
    unfolding restart_in_seek [OF w(1-4)]
    by (simp add: updateProgress_def getCurrentProgress_def w)
  have g: "\<not> goodProgress \<lparr>currentChunk = Fin 3, totalChunks = 1, progress = Fin 3\<rparr>"
    "\<not> goodProgress \<lparr>currentChunk = Fin (3 / 2), totalChunks = 1, progress = Fin (3 / 2)\<rparr>"
    by (simp_all add: goodProgress_def)
  have o: "progressCallback watched1" "chunks watched1 = [story1]" "reported watched1 = []"
    by (simp_all add: watched1_eq initial_def)
  have t: "seekToChunk_setup (Fin (1 / 2)) watched1 = Some (watched1\<lparr>engine := engine watched1 @ [Stop]\<rparr>)"
    using story1_not_blank by (simp add: seekToChunk_setup_def watched1_eq initial_def)
  have i: "isPlaying watched1" "\<not> isPaused watched1" "sessionId watched1 = 1"
    "overrideFirstChunk watched1 = None"
    by (simp_all add: watched1_eq initial_def)
  have f: "seekToChunk droid (Fin (1 / 2)) watched1 =
      watched1\<lparr>engine := engine watched1 @ [Stop], currentChunkIndex := Fin (1 / 2),
        isPaused := False, sessionId := 2, playbackPromise := True, isPlaying := True,
        reported := [\<lparr>currentChunk = Fin (3 / 2), totalChunks = 1, progress = Fin (3 / 2)\<rparr>,
                     \<lparr>currentChunk = Fin (3 / 2), totalChunks = 1, progress = Fin (3 / 2)\<rparr>]\<rparr>"
    by (simp add: seekToChunk_def seekToChunk_during_def t seekToChunk_finish_def i o
        updateProgress_def getCurrentProgress_def ensurePlaybackPromise_def speakChunkChain_def
        truthyStr_def chunkAt_def toDouble_three_halves Let_def)
  from w s r g o t show ?thesis
    by (simp add: f)
qed

text \<open>
  The same happens when \<^verbatim>\<open>restartSpeech\<close> runs to its end before \<^verbatim>\<open>seekToChunk\<close>
  goes on: the new story is handed to the engine under session id 2, and then the seek
  reports chunk 3 of 1 and ends the session, so that the engine speaks while the
  session is not playing.
\<close>

lemma restart_done_in_seek:
  "reported (seekToChunk_during droid (Fin 2) (restartSpeech droid story1 None) watched3) =
     [\<lparr>currentChunk = Fin 1, totalChunks = 1, progress = Fin 1\<rparr>,
      \<lparr>currentChunk = Fin 3, totalChunks = 1, progress = Fin 3\<rparr>,
      \<lparr>currentChunk = Fin 1, totalChunks = 1, progress = Fin 1\<rparr>]"
  "engine (seekToChunk_during droid (Fin 2) (restartSpeech droid story1 None) watched3) =
     engine watched3 @ [Stop, Stop, Speak story1 None (Fin 1) (Fin 0) 2]"
  "\<not> isPlaying (seekToChunk_during droid (Fin 2) (restartSpeech droid story1 None) watched3)"
  "currentChunkIndex (seekToChunk_during droid (Fin 2) (restartSpeech droid story1 None) watched3) = Fin 0"
  using story1_not_blank
  by (simp_all add: seekToChunk_during_def seekToChunk_setup_def seekToChunk_finish_def
      restartSpeech_def restartSpeech_setup_def startChain_def applyPreferences_def
      buildChunks_story1 speakChunkChain_def sessionOver_def resolvePlayback_def
      ensurePlaybackPromise_def story3_facts updateProgress_def getCurrentProgress_def
      watched3_def setProgressCallback_def playing3_eq initial_def chunkAt_def truthyStr_def
      optionsVoice_def rateOr1_def blank_def droid_def Let_def)


end
